theory Spec2Isabelle
  imports Complex_Main "HOL-Library.Word"
begin

unbundle bit_operations_syntax

section \<open>Data model\<close>

subsection \<open>Numbers\<close>

text \<open>
  A \<^verbatim>\<open>number\<close> of JavaScript is a double: a finite value, given here by the rational
  it stands for (the two zeros are one), an infinity, or \<^verbatim>\<open>NaN\<close>. The fields of the
  options, which the caller supplies, and the fields of the instance copied from them
  (worker id, process id, epoch) are such numbers. The readings of \<^verbatim>\<open>Date.now()\<close>,
  and with them \<open>lastTimestamp\<close> and \<open>sequence\<close>, which the code only sets to -1, to 0,
  to a reading or to a masked sum, are integers and are modelled as \<^typ>\<open>int\<close>. A
  \<^verbatim>\<open>BigInt\<close> is an \<^typ>\<open>int\<close>: the bit operations of \<^typ>\<open>int\<close> are those of two's
  complement of unbounded width, as the ones of \<^verbatim>\<open>BigInt\<close> are.
\<close>

datatype number = Finite rat | NaN | PosInfinity | NegInfinity

text \<open>An integer as a number.\<close>

definition number_of_int :: "int \<Rightarrow> number" where
  "number_of_int i = Finite (of_int i)"

text \<open>\<^verbatim>\<open>x < y\<close> on numbers: false as soon as one side is \<^verbatim>\<open>NaN\<close>.\<close>

definition number_less :: "number \<Rightarrow> number \<Rightarrow> bool" where
  "number_less x y =
     (case (x, y) of
        (Finite a, Finite b) \<Rightarrow> a < b
      | (Finite a, PosInfinity) \<Rightarrow> True
      | (NegInfinity, Finite b) \<Rightarrow> True
      | (NegInfinity, PosInfinity) \<Rightarrow> True
      | _ \<Rightarrow> False)"

text \<open>A number is falsy when it is a zero or \<^verbatim>\<open>NaN\<close>.\<close>

definition falsy :: "number \<Rightarrow> bool" where
  "falsy x = (x = Finite 0 \<or> x = NaN)"

subsection \<open>Rounding to a double\<close>

text \<open>
  The result of an arithmetic operation on doubles, and of \<^verbatim>\<open>Number(bigint)\<close>, is the
  double nearest to the exact result, ties to the even significand: 53 significant bits,
  no bit below \<open>2^-1074\<close>, an infinity from \<open>2^1024 - 2^970\<close> on.
\<close>

fun bit_length :: "nat \<Rightarrow> nat" where
  "bit_length n = (if n = 0 then 0 else Suc (bit_length (n div 2)))"

declare bit_length.simps [simp del]

text \<open>\<open>2^k\<close> for an integer \<open>k\<close>.\<close>

definition pow2 :: "int \<Rightarrow> rat" where
  "pow2 k = (if 0 \<le> k then 2 ^ nat k else 1 / 2 ^ nat (- k))"

text \<open>The exponent of the leading bit of a positive rational: \<open>2^e \<le> a < 2^(e+1)\<close>.\<close>

definition binary_exponent :: "rat \<Rightarrow> int" where
  "binary_exponent a =
     (if 1 \<le> a then int (bit_length (nat \<lfloor>a\<rfloor>)) - 1
      else - int (bit_length (nat (\<lceil>1 / a\<rceil> - 1))))"

definition round_half_even :: "rat \<Rightarrow> int" where
  "round_half_even q =
     (let f = \<lfloor>q\<rfloor>; r = q - of_int f
      in if r < 1 / 2 then f else if 1 / 2 < r then f + 1
         else if even f then f else f + 1)"

definition round_to_double :: "rat \<Rightarrow> number" where
  "round_to_double x =
     (if x = 0 then Finite 0
      else
        let a = \<bar>x\<bar>;
            p = max (binary_exponent a - 52) (- 1074);
            y = of_int (round_half_even (a / pow2 p)) * pow2 p
        in if 2 ^ 1024 \<le> y then (if x < 0 then NegInfinity else PosInfinity)
           else Finite (sgn x * y))"

text \<open>\<^verbatim>\<open>x - y\<close> on numbers.\<close>

definition number_minus :: "number \<Rightarrow> number \<Rightarrow> number" where
  "number_minus x y =
     (case (x, y) of
        (Finite a, Finite b) \<Rightarrow> round_to_double (a - b)
      | (NaN, _) \<Rightarrow> NaN
      | (_, NaN) \<Rightarrow> NaN
      | (PosInfinity, PosInfinity) \<Rightarrow> NaN
      | (NegInfinity, NegInfinity) \<Rightarrow> NaN
      | (PosInfinity, _) \<Rightarrow> PosInfinity
      | (NegInfinity, _) \<Rightarrow> NegInfinity
      | (Finite a, PosInfinity) \<Rightarrow> NegInfinity
      | (Finite a, NegInfinity) \<Rightarrow> PosInfinity)"

text \<open>\<^verbatim>\<open>Number(b)\<close> for a \<^verbatim>\<open>BigInt\<close> \<open>b\<close>.\<close>

definition Number :: "int \<Rightarrow> number" where
  "Number b = round_to_double (of_int b)"

subsection \<open>Options, instance, errors\<close>

text \<open>\<^verbatim>\<open>SnowflakeOptions\<close>: every field is optional.\<close>

record SnowflakeOptions =
  opt_workerId :: "number option"
  opt_processId :: "number option"
  opt_epoch :: "number option"

text \<open>The fields of a \<^verbatim>\<open>SnowflakeGenerator\<close> instance.\<close>

record SnowflakeGenerator =
  workerId :: number
  processId :: number
  epoch :: number
  sequence :: int
  lastTimestamp :: int

text \<open>
  The errors the code throws. The first three are \<^verbatim>\<open>Error\<close> objects, told apart by
  their message; the number each one carries is the number its message interpolates:
  \<^item> \<open>WorkerIdError m\<close>: \<^verbatim>\<open>Worker ID must be between 0 and ${m}\<close>;
  \<^item> \<open>ProcessIdError m\<close>: \<^verbatim>\<open>Process ID must be between 0 and ${m}\<close>;
  \<^item> \<open>ClockBackwardsError d\<close>:
    \<^verbatim>\<open>Clock moved backwards. Refusing to generate ID for ${d} milliseconds\<close>;
  \<^item> \<open>SyntaxError\<close>: what \<^verbatim>\<open>BigInt(string)\<close> throws on a string that is no integer;
  \<^item> \<open>RangeError\<close>: what \<^verbatim>\<open>BigInt(number)\<close> throws on a number that is no integer.
\<close>

datatype error =
    WorkerIdError int
  | ProcessIdError int
  | ClockBackwardsError int
  | SyntaxError
  | RangeError

text \<open>\<^verbatim>\<open>BigInt(x)\<close> for a number \<open>x\<close>.\<close>

definition BigInt_of_number :: "number \<Rightarrow> error + int" where
  "BigInt_of_number x =
     (case x of
        Finite v \<Rightarrow> if of_int \<lfloor>v\<rfloor> = v then Inr \<lfloor>v\<rfloor> else Inl RangeError
      | _ \<Rightarrow> Inl RangeError)"

subsection \<open>Constants of the class\<close>

definition WORKER_ID_BITS :: nat where "WORKER_ID_BITS = 5"
definition PROCESS_ID_BITS :: nat where "PROCESS_ID_BITS = 5"
definition SEQUENCE_BITS :: nat where "SEQUENCE_BITS = 12"

definition MAX_WORKER_ID :: int where
  "MAX_WORKER_ID = push_bit WORKER_ID_BITS 1 - 1"
definition MAX_PROCESS_ID :: int where
  "MAX_PROCESS_ID = push_bit PROCESS_ID_BITS 1 - 1"
definition MAX_SEQUENCE :: int where
  "MAX_SEQUENCE = push_bit SEQUENCE_BITS 1 - 1"

definition TIMESTAMP_SHIFT :: nat where
  "TIMESTAMP_SHIFT = WORKER_ID_BITS + PROCESS_ID_BITS + SEQUENCE_BITS"
definition WORKER_ID_SHIFT :: nat where
  "WORKER_ID_SHIFT = PROCESS_ID_BITS + SEQUENCE_BITS"
definition PROCESS_ID_SHIFT :: nat where
  "PROCESS_ID_SHIFT = SEQUENCE_BITS"

definition DEFAULT_EPOCH :: number where
  "DEFAULT_EPOCH = number_of_int 1733011200000"

section \<open>The constructor\<close>

text \<open>
  \<^verbatim>\<open>options?.epoch || 1733011200000\<close>: the operator \<^verbatim>\<open>||\<close> takes its right operand
  when the left one is falsy: a zero, \<^verbatim>\<open>NaN\<close>, or the \<^verbatim>\<open>undefined\<close> of a missing
  field. \<^verbatim>\<open>options?.workerId ?? 1\<close>: the operator \<^verbatim>\<open>??\<close> takes its right operand only
  when the left one is missing.
\<close>

definition or_else_falsy :: "number option \<Rightarrow> number \<Rightarrow> number" where
  "or_else_falsy v d = (case v of None \<Rightarrow> d | Some x \<Rightarrow> if falsy x then d else x)"

definition or_else_nullish :: "number option \<Rightarrow> number \<Rightarrow> number" where
  "or_else_nullish v d = (case v of None \<Rightarrow> d | Some x \<Rightarrow> x)"

text \<open>\<^verbatim>\<open>options?.f\<close>: the field of the options, missing when the options are.\<close>

definition opt_field ::
  "SnowflakeOptions option \<Rightarrow> (SnowflakeOptions \<Rightarrow> number option) \<Rightarrow> number option" where
  "opt_field options f = (case options of None \<Rightarrow> None | Some opts \<Rightarrow> f opts)"

definition new_SnowflakeGenerator ::
  "SnowflakeOptions option \<Rightarrow> error + SnowflakeGenerator" where
  "new_SnowflakeGenerator options =
     (let epoch' = or_else_falsy (opt_field options opt_epoch) DEFAULT_EPOCH;
          workerId' = or_else_nullish (opt_field options opt_workerId) (number_of_int 1)
      in if number_less workerId' (number_of_int 0)
            \<or> number_less (number_of_int MAX_WORKER_ID) workerId'
         then Inl (WorkerIdError MAX_WORKER_ID)
         else
           let processId' = or_else_nullish (opt_field options opt_processId) (number_of_int 1)
           in if number_less processId' (number_of_int 0)
                 \<or> number_less (number_of_int MAX_PROCESS_ID) processId'
              then Inl (ProcessIdError MAX_PROCESS_ID)
              else Inr \<lparr> workerId = workerId', processId = processId',
                         epoch = epoch', sequence = 0, lastTimestamp = - 1 \<rparr>)"

section \<open>The clock\<close>

text \<open>
  \<^verbatim>\<open>Date.now()\<close> is the only input from the environment. The clock is the sequence of
  its readings: \<open>clk i\<close> is what the \<open>i\<close>-th read of the whole run returns. The position
  of the next read is threaded through every function that reads the clock.
\<close>

type_synonym clock = "nat \<Rightarrow> int"

definition getCurrentTimestamp :: "clock \<Rightarrow> nat \<Rightarrow> int \<times> nat" where
  "getCurrentTimestamp clk pos = (clk pos, Suc pos)"

text \<open>
  The loop of \<^verbatim>\<open>waitNextMillis\<close>,
  \<^verbatim>\<open>while (timestamp <= lastTimestamp) timestamp = this.getCurrentTimestamp()\<close>.
  It may spin forever: \<open>None\<close> is the call that never returns.
\<close>

partial_function (option) waitLoop :: "clock \<Rightarrow> int \<Rightarrow> int \<Rightarrow> nat \<Rightarrow> (int \<times> nat) option" where
  "waitLoop clk lastTimestamp' timestamp pos =
     (if timestamp \<le> lastTimestamp'
      then (case getCurrentTimestamp clk pos of
              (timestamp', pos') \<Rightarrow> waitLoop clk lastTimestamp' timestamp' pos')
      else Some (timestamp, pos))"

declare waitLoop.simps [code]

definition waitNextMillis :: "clock \<Rightarrow> int \<Rightarrow> nat \<Rightarrow> (int \<times> nat) option" where
  "waitNextMillis clk lastTimestamp' pos =
     (case getCurrentTimestamp clk pos of
        (timestamp, pos') \<Rightarrow> waitLoop clk lastTimestamp' timestamp pos')"

section \<open>BigInt and strings\<close>

subsection \<open>\<^verbatim>\<open>BigInt.prototype.toString()\<close>\<close>

text \<open>The decimal digits of a natural number, and the decimal text of an integer.\<close>

definition digit_char :: "nat \<Rightarrow> char" where
  "digit_char d = char_of (48 + d)"

fun digits_of_nat :: "nat \<Rightarrow> string" where
  "digits_of_nat n =
     (if n < 10 then [digit_char n]
      else digits_of_nat (n div 10) @ [digit_char (n mod 10)])"

declare digits_of_nat.simps [simp del]

definition BigInt_toString :: "int \<Rightarrow> string" where
  "BigInt_toString i =
     (if i < 0 then CHR ''-'' # digits_of_nat (nat (- i)) else digits_of_nat (nat i))"

subsection \<open>\<^verbatim>\<open>BigInt(string)\<close>\<close>

text \<open>
  \<^verbatim>\<open>BigInt(s)\<close> on a string strips white space at both ends, reads the empty string as
  0, a string of decimal digits with an optional sign, or an unsigned literal in base 16,
  8 or 2 after \<^verbatim>\<open>0x\<close>, \<^verbatim>\<open>0o\<close>, \<^verbatim>\<open>0b\<close>, and throws a \<^verbatim>\<open>SyntaxError\<close> on anything
  else.

  A string is the list of the bytes of its UTF-8 encoding. The white space that is
  stripped is the one of the language: TAB, LF, VT, FF, CR and SPACE, one byte each;
  U+00A0, two bytes; U+1680, U+2000 to U+200A, U+2028, U+2029, U+202F, U+205F, U+3000 and
  U+FEFF, three bytes each.
\<close>

definition whitespace1 :: "nat list" where
  "whitespace1 = [9, 10, 11, 12, 13, 32]"

definition whitespace2 :: "nat list list" where
  "whitespace2 = map (\<lambda>(a, b). [a, b]) [(194, 160)]"

definition whitespace3 :: "nat list list" where
  "whitespace3 =
     map (\<lambda>(a, b, c). [a, b, c])
       [(225, 154, 128),
        (226, 128, 128), (226, 128, 129), (226, 128, 130), (226, 128, 131), (226, 128, 132),
        (226, 128, 133), (226, 128, 134), (226, 128, 135), (226, 128, 136), (226, 128, 137),
        (226, 128, 138),
        (226, 128, 168), (226, 128, 169), (226, 128, 175), (226, 129, 159),
        (227, 128, 128), (239, 187, 191)]"

text \<open>
  The number of bytes of the white space character that a list of bytes starts with, 0
  when it starts with none; and the same for a list of bytes read backwards.
\<close>

definition leading_whitespace :: "nat list \<Rightarrow> nat" where
  "leading_whitespace bs =
     (if take 1 bs \<in> set (map (\<lambda>b. [b]) whitespace1) then 1
      else if take 2 bs \<in> set whitespace2 then 2
      else if take 3 bs \<in> set whitespace3 then 3
      else 0)"

definition trailing_whitespace :: "nat list \<Rightarrow> nat" where
  "trailing_whitespace bs =
     (if take 1 bs \<in> set (map (\<lambda>b. [b]) whitespace1) then 1
      else if take 2 bs \<in> set (map rev whitespace2) then 2
      else if take 3 bs \<in> set (map rev whitespace3) then 3
      else 0)"

function strip :: "(nat list \<Rightarrow> nat) \<Rightarrow> string \<Rightarrow> string" where
  "strip f s =
     (let k = f (map of_char s)
      in if 0 < k \<and> k \<le> length s then strip f (drop k s) else s)"
  by pat_completeness auto
termination
  by (relation "measure (\<lambda>(f, s). length s)") auto

declare strip.simps [simp del]

definition trim :: "string \<Rightarrow> string" where
  "trim s = rev (strip trailing_whitespace (rev (strip leading_whitespace s)))"

definition digit_value :: "char \<Rightarrow> nat option" where
  "digit_value c =
     (let k = (of_char c :: nat)
      in if 48 \<le> k \<and> k \<le> 57 then Some (k - 48)
         else if 97 \<le> k \<and> k \<le> 102 then Some (k - 87)
         else if 65 \<le> k \<and> k \<le> 70 then Some (k - 55)
         else None)"

fun parse_digits :: "nat \<Rightarrow> nat \<Rightarrow> string \<Rightarrow> nat option" where
  "parse_digits radix acc [] = Some acc"
| "parse_digits radix acc (c # cs) =
     (case digit_value c of
        None \<Rightarrow> None
      | Some d \<Rightarrow> if d < radix then parse_digits radix (acc * radix + d) cs else None)"

definition parse_literal :: "nat \<Rightarrow> string \<Rightarrow> int option" where
  "parse_literal radix ds =
     (if ds = [] then None else map_option int (parse_digits radix 0 ds))"

definition SignedInteger :: "string \<Rightarrow> int option" where
  "SignedInteger s =
     (case s of
        [] \<Rightarrow> None
      | c # ds \<Rightarrow>
          if c = CHR ''-'' then map_option uminus (parse_literal 10 ds)
          else if c = CHR ''+'' then parse_literal 10 ds
          else parse_literal 10 s)"

definition StrIntegerLiteral :: "string \<Rightarrow> int option" where
  "StrIntegerLiteral s =
     (case s of
        c # d # ds \<Rightarrow>
          if c = CHR ''0'' \<and> (d = CHR ''x'' \<or> d = CHR ''X'') then parse_literal 16 ds
          else if c = CHR ''0'' \<and> (d = CHR ''o'' \<or> d = CHR ''O'') then parse_literal 8 ds
          else if c = CHR ''0'' \<and> (d = CHR ''b'' \<or> d = CHR ''B'') then parse_literal 2 ds
          else SignedInteger s
      | _ \<Rightarrow> SignedInteger s)"

definition StringToBigInt :: "string \<Rightarrow> int option" where
  "StringToBigInt s =
     (let t = trim s in if t = [] then Some 0 else StrIntegerLiteral t)"

subsection \<open>\<^verbatim>\<open>new Date(number)\<close>\<close>

text \<open>
  \<^verbatim>\<open>new Date(t)\<close> holds the time value \<open>t\<close> cut to an integer, or is an invalid date
  (\<open>None\<close>) when \<open>t\<close> is not finite or beyond 8.64e15 milliseconds from 1970.
\<close>

definition new_Date :: "number \<Rightarrow> int option" where
  "new_Date t =
     (case t of
        Finite v \<Rightarrow> if \<bar>v\<bar> \<le> 8640000000000000 then Some (sgn \<lfloor>v\<rfloor> * \<lfloor>\<bar>v\<bar>\<rfloor>) else None
      | _ \<Rightarrow> None)"

section \<open>Generating an id\<close>

text \<open>
  The last statements of \<^verbatim>\<open>getId\<close>, which pack the fields of the instance and the
  timestamp into a \<^verbatim>\<open>BigInt\<close> and print it. The subtraction is one of doubles; each
  \<^verbatim>\<open>BigInt(...)\<close> of a number that is no integer throws.
\<close>

definition constructId :: "SnowflakeGenerator \<Rightarrow> int \<Rightarrow> error + string" where
  "constructId this timestamp =
     (case BigInt_of_number (number_minus (number_of_int timestamp) (epoch this)) of
        Inl e \<Rightarrow> Inl e
      | Inr offset \<Rightarrow>
          (case BigInt_of_number (workerId this) of
             Inl e \<Rightarrow> Inl e
           | Inr w \<Rightarrow>
               (case BigInt_of_number (processId this) of
                  Inl e \<Rightarrow> Inl e
                | Inr p \<Rightarrow>
                    (let timestampBits = push_bit TIMESTAMP_SHIFT offset;
                         workerIdBits = push_bit WORKER_ID_SHIFT w;
                         processIdBits = push_bit PROCESS_ID_SHIFT p;
                         sequenceBits = sequence this;
                         id' = timestampBits OR workerIdBits OR processIdBits OR sequenceBits
                     in Inr (BigInt_toString id')))))"

text \<open>
  \<^verbatim>\<open>getId\<close> takes the instance and the position of the clock, and returns what the
  call returns or throws, the instance after the call and the position of the clock after
  it; \<open>None\<close> is the call that never returns. Nothing is assigned before the check of
  the clock throws, so that branch returns the instance as it was; a \<^verbatim>\<open>BigInt(...)\<close>
  that throws does so after \<open>sequence\<close> and \<open>lastTimestamp\<close> were assigned. The
  operator \<^verbatim>\<open>&\<close> of numbers works on their low 32 bits; under the mask 4095 that is the
  \<open>AND\<close> of \<^typ>\<open>int\<close>, which keeps the low 12 bits.
\<close>

definition getId ::
  "clock \<Rightarrow> SnowflakeGenerator \<Rightarrow> nat
     \<Rightarrow> ((error + string) \<times> SnowflakeGenerator \<times> nat) option" where
  "getId clk this pos0 =
     (case getCurrentTimestamp clk pos0 of
        (timestamp, pos) \<Rightarrow>
          if timestamp < lastTimestamp this
          then Some (Inl (ClockBackwardsError (lastTimestamp this - timestamp)), this, pos)
          else
            (case
               (if timestamp = lastTimestamp this
                then
                  (let this1 = this\<lparr>sequence := (sequence this + 1) AND MAX_SEQUENCE\<rparr>
                   in if sequence this1 = 0
                      then map_option (\<lambda>(t, p). (t, this1, p)) (waitNextMillis clk timestamp pos)
                      else Some (timestamp, this1, pos))
                else Some (timestamp, this\<lparr>sequence := 0\<rparr>, pos))
             of
               None \<Rightarrow> None
             | Some (timestamp', this2, pos') \<Rightarrow>
                 (let this3 = this2\<lparr>lastTimestamp := timestamp'\<rparr>
                  in Some (constructId this3 timestamp', this3, pos'))))"

section \<open>Decoding an id\<close>

text \<open>
  \<^verbatim>\<open>deconstruct\<close> throws when the string is no integer, and then when the epoch is no
  integer; every field it returns went through \<^verbatim>\<open>Number(...)\<close>.
\<close>

record Deconstructed =
  d_timestamp :: number
  d_workerId :: number
  d_processId :: number
  d_sequence :: number
  d_date :: "int option"

definition deconstruct :: "SnowflakeGenerator \<Rightarrow> string \<Rightarrow> error + Deconstructed" where
  "deconstruct this id' =
     (case StringToBigInt id' of
        None \<Rightarrow> Inl SyntaxError
      | Some snowflakeId \<Rightarrow>
          (case BigInt_of_number (epoch this) of
             Inl e \<Rightarrow> Inl e
           | Inr epoch' \<Rightarrow>
               (let timestamp = Number (drop_bit TIMESTAMP_SHIFT snowflakeId + epoch');
                    workerId' = Number (drop_bit WORKER_ID_SHIFT snowflakeId AND MAX_WORKER_ID);
                    processId' = Number (drop_bit PROCESS_ID_SHIFT snowflakeId AND MAX_PROCESS_ID);
                    sequence' = Number (snowflakeId AND MAX_SEQUENCE)
                in Inr \<lparr> d_timestamp = timestamp, d_workerId = workerId',
                          d_processId = processId', d_sequence = sequence',
                          d_date = new_Date timestamp \<rparr>)))"

section \<open>The service\<close>

text \<open>
  Of \<^verbatim>\<open>IdService\<close> only the configured Snowflake options matter to
  \<^verbatim>\<open>getSnowflake\<close>. In \<^verbatim>\<open>options || this.options.snowflake\<close> an options object is
  never falsy. The generator built for the call is dropped when the call returns.
\<close>

record IdGeneratorOptions =
  snowflake :: "SnowflakeOptions option"

record IdService =
  options :: IdGeneratorOptions

definition getSnowflake ::
  "clock \<Rightarrow> IdService \<Rightarrow> SnowflakeOptions option \<Rightarrow> nat
     \<Rightarrow> ((error + string) \<times> nat) option" where
  "getSnowflake clk this opts pos =
     (let finalOptions = (case opts of Some v \<Rightarrow> Some v | None \<Rightarrow> snowflake (options this))
      in case new_SnowflakeGenerator finalOptions of
           Inl e \<Rightarrow> Some (Inl e, pos)
         | Inr generator \<Rightarrow> map_option (\<lambda>(r, g, p). (r, p)) (getId clk generator pos))"

section \<open>Sequences of calls\<close>

text \<open>
  \<open>calls clk n\<close> is \<open>n\<close> calls of \<^verbatim>\<open>getId\<close> in a row on one instance, a caller that
  catches what a call throws and goes on: the results in order, the instance and the
  position of the clock at the end; \<open>None\<close> when one of the calls never returns.
\<close>

fun calls ::
  "clock \<Rightarrow> nat \<Rightarrow> SnowflakeGenerator \<Rightarrow> nat
     \<Rightarrow> ((error + string) list \<times> SnowflakeGenerator \<times> nat) option" where
  "calls clk 0 this pos = Some ([], this, pos)"
| "calls clk (Suc n) this pos =
     (case getId clk this pos of
        None \<Rightarrow> None
      | Some (r, this', pos') \<Rightarrow>
          (case calls clk n this' pos' of
             None \<Rightarrow> None
           | Some (rs, this'', pos'') \<Rightarrow> Some (r # rs, this'', pos'')))"

text \<open>The ids among the results of a sequence of calls.\<close>

fun ids_of :: "(error + string) list \<Rightarrow> string list" where
  "ids_of [] = []"
| "ids_of (Inl e # rs) = ids_of rs"
| "ids_of (Inr s # rs) = s # ids_of rs"

section \<open>Notions used in the statements\<close>

text \<open>A number that is an integer, and the integer it is (0 for any other number).\<close>

definition integral :: "number \<Rightarrow> bool" where
  "integral x = (case x of Finite v \<Rightarrow> of_int \<lfloor>v\<rfloor> = v | _ \<Rightarrow> False)"

definition int_of :: "number \<Rightarrow> int" where
  "int_of x = (case x of Finite v \<Rightarrow> \<lfloor>v\<rfloor> | _ \<Rightarrow> 0)"

text \<open>The integer that \<^verbatim>\<open>getId\<close> prints: the four fields packed into one.\<close>

definition packId :: "int \<Rightarrow> int \<Rightarrow> int \<Rightarrow> int \<Rightarrow> int" where
  "packId a w p s = push_bit 22 a OR push_bit 17 w OR push_bit 12 p OR s"

text \<open>
  The number \<^verbatim>\<open>timestamp - this.epoch\<close> that \<^verbatim>\<open>getId\<close> computes for a timestamp, and
  the integer packed for a timestamp and a sequence when every \<^verbatim>\<open>BigInt(...)\<close> of
  \<^verbatim>\<open>getId\<close> returns.
\<close>

definition offset :: "SnowflakeGenerator \<Rightarrow> int \<Rightarrow> number" where
  "offset this t = number_minus (number_of_int t) (epoch this)"

definition id_of :: "SnowflakeGenerator \<Rightarrow> int \<times> int \<Rightarrow> int" where
  "id_of this k =
     packId (int_of (offset this (fst k))) (int_of (workerId this)) (int_of (processId this))
       (snd k)"

text \<open>
  What the constructor has checked of an identity; an identity of integers in range; the
  range the sequence stays in.
\<close>

definition checked_identity :: "SnowflakeGenerator \<Rightarrow> bool" where
  "checked_identity this =
     (\<not> number_less (workerId this) (number_of_int 0)
      \<and> \<not> number_less (number_of_int 31) (workerId this)
      \<and> \<not> number_less (processId this) (number_of_int 0)
      \<and> \<not> number_less (number_of_int 31) (processId this))"

definition valid_identity :: "SnowflakeGenerator \<Rightarrow> bool" where
  "valid_identity this =
     (integral (workerId this) \<and> 0 \<le> int_of (workerId this) \<and> int_of (workerId this) \<le> 31
      \<and> integral (processId this) \<and> 0 \<le> int_of (processId this)
      \<and> int_of (processId this) \<le> 31)"

definition valid_sequence :: "SnowflakeGenerator \<Rightarrow> bool" where
  "valid_sequence this = (0 \<le> sequence this \<and> sequence this \<le> 4095)"

text \<open>
  The pair of \<open>lastTimestamp\<close> and \<open>sequence\<close> of an instance, and the order of such
  pairs: by timestamp, then by sequence.
\<close>

definition key :: "SnowflakeGenerator \<Rightarrow> int \<times> int" where
  "key this = (lastTimestamp this, sequence this)"

definition key_less :: "int \<times> int \<Rightarrow> int \<times> int \<Rightarrow> bool" where
  "key_less k l = (fst k < fst l \<or> (fst k = fst l \<and> snd k < snd l))"

text \<open>The decimal digits among the characters.\<close>

definition is_decimal :: "char \<Rightarrow> bool" where
  "is_decimal c = (48 \<le> (of_char c :: nat) \<and> (of_char c :: nat) \<le> 57)"

section \<open>Facts about the constants\<close>

lemma MAX_values:
  "MAX_WORKER_ID = 31" "MAX_PROCESS_ID = 31" "MAX_SEQUENCE = 4095"
  by (simp_all add: MAX_WORKER_ID_def MAX_PROCESS_ID_def MAX_SEQUENCE_def
      WORKER_ID_BITS_def PROCESS_ID_BITS_def SEQUENCE_BITS_def)

lemma SHIFT_values:
  "TIMESTAMP_SHIFT = 22" "WORKER_ID_SHIFT = 17" "PROCESS_ID_SHIFT = 12"
  by (simp_all add: TIMESTAMP_SHIFT_def WORKER_ID_SHIFT_def PROCESS_ID_SHIFT_def
      WORKER_ID_BITS_def PROCESS_ID_BITS_def SEQUENCE_BITS_def)

section \<open>Numbers that are integers\<close>

lemma integral_number_of_int [simp]: "integral (number_of_int i)"
  by (simp add: integral_def number_of_int_def)

lemma int_of_number_of_int [simp]: "int_of (number_of_int i) = i"
  by (simp add: int_of_def number_of_int_def)

lemma integral_eq: "integral x \<Longrightarrow> x = number_of_int (int_of x)"
  by (cases x) (auto simp: integral_def int_of_def number_of_int_def)

lemma BigInt_of_number_eq:
  "BigInt_of_number x = (if integral x then Inr (int_of x) else Inl RangeError)"
  by (cases x) (simp_all add: BigInt_of_number_def integral_def int_of_def)

lemma number_less_ints [simp]:
  "number_less (number_of_int i) (number_of_int j) \<longleftrightarrow> i < j"
  by (simp add: number_less_def number_of_int_def)

lemma checked_integral_range:
  assumes "\<not> number_less x (number_of_int 0)" and "\<not> number_less (number_of_int 31) x"
    and "integral x"
  shows "0 \<le> int_of x \<and> int_of x \<le> 31"
  using assms integral_eq [OF assms(3)]
  by (metis int_of_number_of_int number_less_ints not_less)

section \<open>Rounding\<close>

lemma bit_length_le: "m < 2 ^ k \<Longrightarrow> bit_length m \<le> k"
proof (induction k arbitrary: m)
  case 0
  then show ?case by (subst bit_length.simps) simp
next
  case (Suc k)
  then have "m div 2 < 2 ^ k" by auto
  from Suc.IH [OF this] show ?case
    by (subst bit_length.simps) simp
qed

lemma bit_length_between:
  "2 ^ k \<le> m \<Longrightarrow> m < 2 ^ Suc k \<Longrightarrow> bit_length m = Suc k"
proof (induction k arbitrary: m)
  case 0
  then have "m = Suc 0" by simp
  then show ?case
    by (simp add: bit_length.simps [of "Suc 0"] bit_length.simps [of 0])
next
  case (Suc k)
  then have "2 ^ k \<le> m div 2" "m div 2 < 2 ^ Suc k" by auto
  then have "bit_length (m div 2) = Suc k" by (rule Suc.IH)
  moreover have "0 < (2 :: nat) ^ Suc k" by simp
  with Suc.prems(1) have "m \<noteq> 0" by linarith
  ultimately show ?case
    using bit_length.simps [of m] by simp
qed

lemma bit_length_positive: "0 < m \<Longrightarrow> 0 < bit_length m"
  by (subst bit_length.simps) simp

lemma pow2_positive [simp]: "0 < pow2 k"
  by (simp add: pow2_def)

lemma pow2_nonpositive: "k \<le> 0 \<Longrightarrow> pow2 k = 1 / 2 ^ nat (- k)"
  by (auto simp: pow2_def)

lemma pow2_small:
  assumes "k \<le> - 12"
  shows "pow2 k \<le> 1 / 4096"
proof -
  have "(2 :: rat) ^ 12 \<le> 2 ^ nat (- k)"
    using assms by (intro power_increasing) simp_all
  then have "1 / (2 :: rat) ^ nat (- k) \<le> 1 / 2 ^ 12"
    by (intro divide_left_mono) simp_all
  then show ?thesis
    using assms by (simp add: pow2_def)
qed

lemma round_half_even_of_int [simp]: "round_half_even (of_int n) = n"
  by (simp add: round_half_even_def)

lemma round_half_even_error: "\<bar>of_int (round_half_even q) - q\<bar> \<le> 1 / 2"
proof -
  have "of_int \<lfloor>q\<rfloor> \<le> q" "q < of_int \<lfloor>q\<rfloor> + 1"
    by linarith+
  then show ?thesis
    by (auto simp: round_half_even_def Let_def abs_le_iff)
qed

lemma rounded_error:
  fixes a :: rat
  shows "\<bar>of_int (round_half_even (a / pow2 p)) * pow2 p - a\<bar> \<le> pow2 p / 2"
proof -
  let ?n = "of_int (round_half_even (a / pow2 p)) :: rat"
  have "\<bar>?n * pow2 p - a\<bar> = \<bar>?n - a / pow2 p\<bar> * pow2 p"
  proof -
    have "pow2 p \<noteq> 0"
      using pow2_positive [of p] by linarith
    then have "?n * pow2 p - a = (?n - a / pow2 p) * pow2 p"
      by (simp add: algebra_simps)
    moreover have "\<bar>pow2 p\<bar> = pow2 p"
      using pow2_positive [of p] by linarith
    ultimately show ?thesis
      by (simp only: abs_mult)
  qed
  also have "\<dots> \<le> 1 / 2 * pow2 p"
    by (intro mult_right_mono round_half_even_error less_imp_le pow2_positive)
  finally show ?thesis by simp
qed

text \<open>An integer of magnitude at most \<open>2^53\<close> is a double.\<close>

lemma round_to_double_int_exact:
  assumes "\<bar>z\<bar> \<le> 2 ^ 53"
  shows "round_to_double (of_int z) = Finite (of_int z)"
proof (cases "z = 0")
  case True
  then show ?thesis by (simp add: round_to_double_def)
next
  case False
  define m where "m = nat \<bar>z\<bar>"
  define a :: rat where "a = of_nat m"
  have m: "0 < m" "m \<le> 2 ^ 53"
    using False assms by (simp_all add: m_def nat_le_iff)
  have abs: "\<bar>of_int z :: rat\<bar> = a"
    by (simp add: a_def m_def)
  have fl: "nat \<lfloor>a\<rfloor> = m"
    by (simp add: a_def)
  have one: "1 \<le> a"
    using m(1) by (simp add: a_def Suc_le_eq)
  have e: "binary_exponent a = int (bit_length m) - 1"
    using one by (simp only: binary_exponent_def fl if_True)
  define p where "p = max (binary_exponent a - 52) (- 1074)"
  have y: "of_int (round_half_even (a / pow2 p)) * pow2 p = a"
  proof (cases "m < 2 ^ 53")
    case True
    then have "bit_length m \<le> 53" by (rule bit_length_le)
    with bit_length_positive [OF m(1)] have p0: "p \<le> 0"
      by (simp add: p_def e)
    then have pw: "pow2 p = 1 / 2 ^ nat (- p)"
      by (simp add: pow2_nonpositive)
    have "a / pow2 p = of_int (int m * 2 ^ nat (- p))"
      by (simp add: pw a_def)
    then show ?thesis
      by (simp only: round_half_even_of_int) (simp add: pw a_def)
  next
    case False
    with m(2) have eq: "m = 2 ^ 53" by simp
    then have "bit_length m = Suc 53"
      by (intro bit_length_between) simp_all
    then have p1: "p = 1" by (simp add: p_def e)
    have "a / pow2 1 = of_int (2 ^ 52)"
      by (simp add: eq pow2_def a_def)
    then show ?thesis
      unfolding p1 by (simp only: round_half_even_of_int) (simp add: eq pow2_def a_def)
  qed
  have small: "\<not> 2 ^ 1024 \<le> a"
  proof -
    have "a \<le> of_nat (2 ^ 53)"
      unfolding a_def using m(2) by (simp only: of_nat_le_iff)
    also have "\<dots> < 2 ^ 1024" by simp
    finally show ?thesis by simp
  qed
  have s: "sgn (of_int z :: rat) * a = of_int z"
    unfolding abs [symmetric] by (simp add: mult_sgn_abs)
  have nz: "(of_int z :: rat) \<noteq> 0"
    using False by simp
  show ?thesis
    unfolding round_to_double_def Let_def abs p_def [symmetric]
    using nz y small s by simp
qed

lemma Number_exact:
  assumes "\<bar>b\<bar> \<le> 2 ^ 53"
  shows "Number b = number_of_int b"
  using round_to_double_int_exact [OF assms] by (simp add: Number_def number_of_int_def)

text \<open>
  A rational from 0 to \<open>2^41\<close> is rounded to a double at most \<open>2^-13\<close> away from it.
\<close>

lemma round_to_double_near:
  assumes "0 \<le> x" and "x < 2 ^ 41"
  shows "\<exists>y. round_to_double x = Finite y \<and> \<bar>y - x\<bar> \<le> 1 / 8192"
proof (cases "x = 0")
  case True
  then show ?thesis by (simp add: round_to_double_def)
next
  case False
  with assms(1) have pos: "0 < x" by simp
  define p where "p = max (binary_exponent x - 52) (- 1074)"
  define y where "y = of_int (round_half_even (x / pow2 p)) * pow2 p"
  have "binary_exponent x \<le> 40"
  proof (cases "1 \<le> x")
    case True
    have "nat \<lfloor>x\<rfloor> < 2 ^ 41"
      using assms by (simp add: nat_less_iff floor_less_iff)
    then have "bit_length (nat \<lfloor>x\<rfloor>) \<le> 41" by (rule bit_length_le)
    with True show ?thesis by (simp add: binary_exponent_def)
  next
    case False
    then show ?thesis by (simp add: binary_exponent_def)
  qed
  then have "p \<le> - 12" by (simp add: p_def)
  then have pw: "pow2 p \<le> 1 / 4096" by (rule pow2_small)
  have err: "\<bar>y - x\<bar> \<le> 1 / 8192"
    using rounded_error [of x p] pw by (simp add: y_def)
  then have "y < 2 ^ 1024"
  proof -
    from err have "y \<le> x + 1 / 8192" by linarith
    also have "\<dots> < 2 ^ 41 + 1" using assms(2) by simp
    also have "\<dots> < 2 ^ 1024" by simp
    finally show ?thesis .
  qed
  then have "round_to_double x = Finite y"
    using pos by (simp add: round_to_double_def Let_def p_def [symmetric] y_def [symmetric])
  with err show ?thesis by blast
qed

section \<open>Waiting for the next millisecond\<close>

lemma waitLoop_first_later:
  assumes "lastTs < clk (pos + k)" and "\<forall>j<k. clk (pos + j) \<le> lastTs"
  shows "waitLoop clk lastTs (clk pos) (Suc pos) = Some (clk (pos + k), Suc (pos + k))"
  using assms
proof (induction k arbitrary: pos)
  case 0
  then show ?case
    by (subst waitLoop.simps) simp
next
  case (Suc k)
  from Suc.prems(2) have here: "clk pos \<le> lastTs"
    by (metis add.right_neutral zero_less_Suc)
  have later: "lastTs < clk (Suc pos + k)"
    using Suc.prems(1) by simp
  have before: "\<forall>j<k. clk (Suc pos + j) \<le> lastTs"
  proof (intro allI impI)
    fix j assume "j < k"
    then have "Suc j < Suc k" by simp
    with Suc.prems(2) have "clk (pos + Suc j) \<le> lastTs" by blast
    then show "clk (Suc pos + j) \<le> lastTs" by simp
  qed
  have "waitLoop clk lastTs (clk pos) (Suc pos)
          = waitLoop clk lastTs (clk (Suc pos)) (Suc (Suc pos))"
    using here by (subst waitLoop.simps) (simp add: getCurrentTimestamp_def)
  also have "\<dots> = Some (clk (Suc pos + k), Suc (Suc pos + k))"
    by (rule Suc.IH [OF later before])
  finally show ?case by simp
qed

text \<open>
  C10. When the readings of the clock from the current position on contain one strictly
  greater than \<open>lastTimestamp\<close>, \<^verbatim>\<open>waitNextMillis\<close> returns, and it returns the first
  such reading (the one at offset \<open>k\<close>, every reading before it being at most
  \<open>lastTimestamp\<close>), having read the clock up to it.
\<close>

theorem waitNextMillis_returns_first_later_reading:
  assumes "lastTs < clk (pos + k)" and "\<forall>j<k. clk (pos + j) \<le> lastTs"
  shows "waitNextMillis clk lastTs pos = Some (clk (pos + k), Suc (pos + k))"
  using waitLoop_first_later [OF assms]
  by (simp add: waitNextMillis_def getCurrentTimestamp_def)

theorem waitNextMillis_returns_first_later_reading_witness:
  "waitNextMillis (\<lambda>i. int i) 2 0 = Some (3, 4)"
proof -
  have a: "(2 :: int) < (\<lambda>i. int i) (0 + 3)" by simp
  have b: "\<forall>j<3. (\<lambda>i. int i) (0 + j) \<le> (2 :: int)" by simp
  show ?thesis
    using waitNextMillis_returns_first_later_reading [OF a b] by simp
qed

section \<open>The packed integer\<close>

lemma packId_drop_timestamp:
  "drop_bit 22 (packId a (take_bit 5 w) (take_bit 5 p) (take_bit 12 s)) = a"
  unfolding packId_def by (auto simp: bit_eq_iff bit_simps)

lemma packId_take_workerId:
  "take_bit 5 (drop_bit 17 (packId a (take_bit 5 w) (take_bit 5 p) (take_bit 12 s)))
     = take_bit 5 w"
  unfolding packId_def by (auto simp: bit_eq_iff bit_simps)

lemma packId_take_processId:
  "take_bit 5 (drop_bit 12 (packId a (take_bit 5 w) (take_bit 5 p) (take_bit 12 s)))
     = take_bit 5 p"
  unfolding packId_def by (auto simp: bit_eq_iff bit_simps)

lemma packId_take_sequence:
  "take_bit 12 (packId a (take_bit 5 w) (take_bit 5 p) (take_bit 12 s)) = take_bit 12 s"
  unfolding packId_def by (auto simp: bit_eq_iff bit_simps)

lemma packId_take_sum:
  "packId a (take_bit 5 w) (take_bit 5 p) (take_bit 12 s)
     = a * 2 ^ 22 + take_bit 5 w * 2 ^ 17 + take_bit 5 p * 2 ^ 12 + take_bit 12 s"
proof -
  let ?W = "push_bit 17 (take_bit 5 w)" and ?P = "push_bit 12 (take_bit 5 p)"
    and ?S = "take_bit 12 s"
  have 1: "?P OR ?S = ?P + ?S"
    by (rule disjunctive_add [symmetric]) (auto simp: bit_simps)
  have 2: "?W OR (?P OR ?S) = ?W + (?P OR ?S)"
    by (rule disjunctive_add [symmetric]) (auto simp: bit_simps)
  have 3: "push_bit 22 a OR (?W OR (?P OR ?S)) = push_bit 22 a + (?W OR (?P OR ?S))"
    by (rule disjunctive_add [symmetric]) (auto simp: bit_simps)
  have "packId a (take_bit 5 w) (take_bit 5 p) (take_bit 12 s)
          = push_bit 22 a + (?W OR (?P OR ?S))"
    unfolding packId_def by (rule 3)
  also have "\<dots> = push_bit 22 a + (?W + (?P OR ?S))"
    by (simp only: 2)
  also have "\<dots> = push_bit 22 a + (?W + (?P + ?S))"
    by (simp only: 1)
  finally show ?thesis
    by (simp add: push_bit_eq_mult)
qed

lemma and31: "(x::int) AND 31 = take_bit 5 x"
  by (simp add: take_bit_eq_mask mask_eq_exp_minus_1)
lemma and4095: "(x::int) AND 4095 = take_bit 12 x"
  by (simp add: take_bit_eq_mask mask_eq_exp_minus_1)

lemma next_sequence:
  fixes s :: int
  assumes "0 \<le> s" "s \<le> 4095"
  shows "(s + 1) AND 4095 = (if s = 4095 then 0 else s + 1)"
  using assms by (simp add: and4095 take_bit_eq_mod)

lemma packId_sum:
  assumes "0 \<le> w" "w \<le> 31" "0 \<le> p" "p \<le> 31" "0 \<le> s" "s \<le> 4095"
  shows "packId a w p s = a * 2 ^ 22 + w * 2 ^ 17 + p * 2 ^ 12 + s"
proof -
  have "take_bit 5 w = w" "take_bit 5 p = p" "take_bit 12 s = s"
    using assms by (simp_all add: take_bit_int_eq_self)
  with packId_take_sum [of a w p s] show ?thesis by simp
qed

lemma packId_fields:
  assumes "0 \<le> w" "w \<le> 31" "0 \<le> p" "p \<le> 31" "0 \<le> s" "s \<le> 4095"
  shows "drop_bit 22 (packId a w p s) = a"
    and "drop_bit 17 (packId a w p s) AND 31 = w"
    and "drop_bit 12 (packId a w p s) AND 31 = p"
    and "packId a w p s AND 4095 = s"
proof -
  have eq: "take_bit 5 w = w" "take_bit 5 p = p" "take_bit 12 s = s"
    using assms by (simp_all add: take_bit_int_eq_self)
  show "drop_bit 22 (packId a w p s) = a"
    using packId_drop_timestamp [of a w p s] by (simp add: eq)
  show "drop_bit 17 (packId a w p s) AND 31 = w"
    using packId_take_workerId [of a w p s] by (simp add: eq and31)
  show "drop_bit 12 (packId a w p s) AND 31 = p"
    using packId_take_processId [of a w p s] by (simp add: eq and31)
  show "packId a w p s AND 4095 = s"
    using packId_take_sequence [of a w p s] by (simp add: eq and4095)
qed

lemma packId_less:
  assumes "0 \<le> w" "w \<le> 31" "0 \<le> p" "p \<le> 31"
    and "0 \<le> s" "s \<le> 4095" "0 \<le> s'" "s' \<le> 4095"
    and "a < a' \<or> (a = a' \<and> s < s')"
  shows "packId a w p s < packId a' w p s'"
  using assms by (auto simp: packId_sum)

lemma packId_range:
  assumes "0 \<le> w" "w \<le> 31" "0 \<le> p" "p \<le> 31" "0 \<le> s" "s \<le> 4095"
    and "0 \<le> a" "a \<le> 2 ^ 41 - 1"
  shows "0 \<le> packId a w p s" "packId a w p s < 2 ^ 63"
  using assms by (simp_all add: packId_sum)

section \<open>Printing and reading a BigInt\<close>

lemma of_char_digit_char: "d < 10 \<Longrightarrow> (of_char (digit_char d) :: nat) = 48 + d"
  by (simp add: digit_char_def)

lemma digit_value_digit_char: "d < 10 \<Longrightarrow> digit_value (digit_char d) = Some d"
  by (simp add: digit_value_def of_char_digit_char)

lemma is_decimal_digit_char: "d < 10 \<Longrightarrow> is_decimal (digit_char d)"
  by (simp add: is_decimal_def of_char_digit_char)

lemma is_decimal_not_special:
  assumes "is_decimal c"
  shows "c \<noteq> CHR ''-''" "c \<noteq> CHR ''+''"
    "c \<noteq> CHR ''x''" "c \<noteq> CHR ''X''" "c \<noteq> CHR ''o''" "c \<noteq> CHR ''O''"
    "c \<noteq> CHR ''b''" "c \<noteq> CHR ''B''"
  using assms by (auto simp: is_decimal_def)

lemma digits_of_nat_decimal: "\<forall>c \<in> set (digits_of_nat n). is_decimal c"
proof (induction n rule: digits_of_nat.induct)
  case (1 n)
  show ?case
  proof (cases "n < 10")
    case True
    then show ?thesis
      by (subst digits_of_nat.simps) (simp add: is_decimal_digit_char)
  next
    case False
    with 1 show ?thesis
      by (subst digits_of_nat.simps) (simp add: is_decimal_digit_char)
  qed
qed

lemma digits_of_nat_nonempty: "digits_of_nat n \<noteq> []"
  by (subst digits_of_nat.simps) simp

lemma parse_digits_snoc:
  "parse_digits r acc (xs @ [c]) =
     (case parse_digits r acc xs of
        None \<Rightarrow> None
      | Some v \<Rightarrow> (case digit_value c of
                    None \<Rightarrow> None
                  | Some d \<Rightarrow> if d < r then Some (v * r + d) else None))"
  by (induction xs arbitrary: acc) (auto split: option.splits)

lemma parse_digits_of_nat: "parse_digits 10 0 (digits_of_nat n) = Some n"
proof (induction n rule: digits_of_nat.induct)
  case (1 n)
  show ?case
  proof (cases "n < 10")
    case True
    then show ?thesis
      by (subst digits_of_nat.simps) (simp add: digit_value_digit_char)
  next
    case False
    with 1 have "parse_digits 10 0 (digits_of_nat (n div 10)) = Some (n div 10)"
      by simp
    with False show ?thesis
      by (subst digits_of_nat.simps) (simp add: parse_digits_snoc digit_value_digit_char)
  qed
qed

lemma no_whitespace_ascii:
  assumes "b < 128" and "b \<notin> set whitespace1"
  shows "leading_whitespace (b # bs) = 0" and "trailing_whitespace (b # bs) = 0"
  using assms
  by (auto simp: leading_whitespace_def trailing_whitespace_def whitespace1_def
      whitespace2_def whitespace3_def)

lemma strip_nothing: "f (map of_char s) = 0 \<Longrightarrow> strip f s = s"
  by (subst strip.simps) simp

lemma is_decimal_ascii:
  assumes "is_decimal c \<or> c = CHR ''-''"
  shows "(of_char c :: nat) < 128" and "(of_char c :: nat) \<notin> set whitespace1"
  using assms by (auto simp: is_decimal_def whitespace1_def)

lemma trim_self:
  assumes "s \<noteq> []" and "is_decimal (hd s) \<or> hd s = CHR ''-''" and "is_decimal (last s)"
  shows "trim s = s"
proof -
  from assms(1) obtain c cs where s: "s = c # cs" by (cases s) auto
  from assms(1) obtain d ds where r: "rev s = d # ds" by (cases "rev s") auto
  with assms(1) have d: "d = last s" by (metis hd_rev list.sel(1))
  have "leading_whitespace (map of_char s) = 0"
    using no_whitespace_ascii(1) [OF is_decimal_ascii [of c]] assms(2) by (simp add: s)
  then have 1: "strip leading_whitespace s = s" by (rule strip_nothing)
  have "trailing_whitespace (map of_char (rev s)) = 0"
    using no_whitespace_ascii(2) [OF is_decimal_ascii [of d]] assms(3) d by (simp add: r)
  then have 2: "strip trailing_whitespace (rev s) = rev s" by (rule strip_nothing)
  show ?thesis by (simp add: trim_def 1 2)
qed

lemma SignedInteger_decimal:
  assumes "s \<noteq> []" and "\<forall>c \<in> set s. is_decimal c"
  shows "SignedInteger s = parse_literal 10 s"
  using assms by (cases s) (auto simp: SignedInteger_def dest: is_decimal_not_special)

lemma StrIntegerLiteral_second_decimal:
  assumes "is_decimal d"
  shows "StrIntegerLiteral (c # d # ds) = SignedInteger (c # d # ds)"
  using is_decimal_not_special [OF assms] by (simp add: StrIntegerLiteral_def)

lemma StrIntegerLiteral_decimal:
  assumes "s \<noteq> []" and "\<forall>c \<in> set s. is_decimal c"
  shows "StrIntegerLiteral s = parse_literal 10 s"
proof -
  have "StrIntegerLiteral s = SignedInteger s"
  proof (cases s)
    case Nil
    then show ?thesis by (simp add: StrIntegerLiteral_def)
  next
    case c: (Cons c cs)
    show ?thesis
    proof (cases cs)
      case Nil
      with c show ?thesis by (simp add: StrIntegerLiteral_def)
    next
      case (Cons d ds)
      with c assms have "is_decimal d" by simp
      then show ?thesis
        unfolding c Cons by (rule StrIntegerLiteral_second_decimal)
    qed
  qed
  then show ?thesis
    using SignedInteger_decimal [OF assms] by simp
qed

lemma StringToBigInt_digits: "StringToBigInt (digits_of_nat n) = Some (int n)"
proof -
  let ?s = "digits_of_nat n"
  have ne: "?s \<noteq> []" by (rule digits_of_nat_nonempty)
  have dec: "\<forall>c \<in> set ?s. is_decimal c" by (rule digits_of_nat_decimal)
  from ne dec have "is_decimal (hd ?s)" "is_decimal (last ?s)"
    by simp_all
  then have "trim ?s = ?s"
    using ne by (intro trim_self) simp_all
  then show ?thesis
    using ne dec by (simp add: StringToBigInt_def StrIntegerLiteral_decimal parse_literal_def
        parse_digits_of_nat)
qed

lemma StringToBigInt_minus_digits:
  "StringToBigInt (CHR ''-'' # digits_of_nat n) = Some (- int n)"
proof -
  let ?s = "digits_of_nat n"
  have ne: "?s \<noteq> []" by (rule digits_of_nat_nonempty)
  have dec: "\<forall>c \<in> set ?s. is_decimal c" by (rule digits_of_nat_decimal)
  from ne dec have "is_decimal (last ?s)"
    by simp
  then have "is_decimal (last (CHR ''-'' # ?s))"
    using ne by simp
  then have t: "trim (CHR ''-'' # ?s) = CHR ''-'' # ?s"
    by (intro trim_self) simp_all
  obtain d ds where ds: "?s = d # ds"
    using ne by (cases ?s) auto
  have "is_decimal d"
    using dec ds by simp
  then have "StrIntegerLiteral (CHR ''-'' # ?s) = SignedInteger (CHR ''-'' # ?s)"
    unfolding ds by (rule StrIntegerLiteral_second_decimal)
  also have "\<dots> = Some (- int n)"
    using ne by (simp add: SignedInteger_def parse_literal_def parse_digits_of_nat)
  finally show ?thesis
    using t by (simp add: StringToBigInt_def)
qed

lemma StringToBigInt_toString: "StringToBigInt (BigInt_toString i) = Some i"
  by (simp add: BigInt_toString_def StringToBigInt_digits StringToBigInt_minus_digits)

lemma BigInt_toString_inj: "inj BigInt_toString"
  by (rule inj_on_inverseI [where g = "\<lambda>s. the (StringToBigInt s)"])
    (simp add: StringToBigInt_toString)

lemma digit_char_values:
  "digit_char 0 = CHR ''0''" "digit_char 1 = CHR ''1''" "digit_char 2 = CHR ''2''"
  "digit_char 3 = CHR ''3''" "digit_char 4 = CHR ''4''" "digit_char 5 = CHR ''5''"
  "digit_char 6 = CHR ''6''" "digit_char 7 = CHR ''7''" "digit_char 8 = CHR ''8''"
  "digit_char 9 = CHR ''9''" "digit_char (Suc 0) = CHR ''1''"
  by code_simp+

text \<open>
  White space outside ASCII is stripped as well: the string of U+00A0 and the digit 5,
  and the one of the digit 5 and U+FEFF, read as 5.
\<close>

lemma StringToBigInt_unicode_space:
  "StringToBigInt [char_of (194 :: nat), char_of (160 :: nat), CHR ''5''] = Some 5"
  "StringToBigInt [CHR ''5'', char_of (239 :: nat), char_of (187 :: nat), char_of (191 :: nat)]
     = Some 5"
proof -
  have l: "strip leading_whitespace [char_of (194 :: nat), char_of (160 :: nat), CHR ''5'']
      = ''5''"
    by (simp add: strip.simps [of leading_whitespace] leading_whitespace_def whitespace1_def
        whitespace2_def whitespace3_def)
  have t: "strip trailing_whitespace ''5'' = ''5''"
    by (simp add: strip.simps [of trailing_whitespace] trailing_whitespace_def whitespace1_def
        whitespace2_def whitespace3_def)
  have l2: "strip leading_whitespace
        [CHR ''5'', char_of (239 :: nat), char_of (187 :: nat), char_of (191 :: nat)]
      = [CHR ''5'', char_of (239 :: nat), char_of (187 :: nat), char_of (191 :: nat)]"
    by (simp add: strip.simps [of leading_whitespace] leading_whitespace_def whitespace1_def
        whitespace2_def whitespace3_def)
  have t2: "strip trailing_whitespace
        [char_of (191 :: nat), char_of (187 :: nat), char_of (239 :: nat), CHR ''5'']
      = ''5''"
    by (simp add: strip.simps [of trailing_whitespace] trailing_whitespace_def whitespace1_def
        whitespace2_def whitespace3_def)
  have five: "StrIntegerLiteral ''5'' = Some 5"
    by (simp add: StrIntegerLiteral_def SignedInteger_def parse_literal_def digit_value_def)
  show "StringToBigInt [char_of (194 :: nat), char_of (160 :: nat), CHR ''5''] = Some 5"
    by (simp add: StringToBigInt_def trim_def l t five)
  show "StringToBigInt
      [CHR ''5'', char_of (239 :: nat), char_of (187 :: nat), char_of (191 :: nat)] = Some 5"
    by (simp add: StringToBigInt_def trim_def l2 t2 five)
qed

section \<open>What the busy-wait returns\<close>

lemma waitLoop_result:
  assumes "waitLoop clk lastTs t pos = Some y"
  shows "lastTs < fst y \<and> pos \<le> snd y
     \<and> (if snd y = pos then fst y = t else fst y = clk (snd y - 1))"
proof (rule waitLoop.raw_induct
    [where P = "\<lambda>clk lastTs t pos y. lastTs < fst y \<and> pos \<le> snd y
       \<and> (if snd y = pos then fst y = t else fst y = clk (snd y - 1))", OF _ assms],
    goal_cases)
  case (1 f clk lastTs t pos y)
  show ?case
  proof (cases "t \<le> lastTs")
    case True
    with 1(2) have "f clk lastTs (clk pos) (Suc pos) = Some y"
      by (simp add: getCurrentTimestamp_def)
    from 1(1) [OF this] show ?thesis
      by (auto split: if_splits)
  next
    case False
    with 1(2) show ?thesis by auto
  qed
qed

lemma waitNextMillis_result:
  assumes "waitNextMillis clk lastTs pos = Some (t', pos')"
  shows "lastTs < t' \<and> pos < pos' \<and> t' = clk (pos' - 1)"
  using waitLoop_result [of clk lastTs "clk pos" "Suc pos" "(t', pos')"] assms
  by (auto simp: waitNextMillis_def getCurrentTimestamp_def split: if_splits)

section \<open>Construction\<close>

lemma new_SnowflakeGenerator_cases:
  fixes options :: "SnowflakeOptions option"
  defines "w \<equiv> or_else_nullish (opt_field options opt_workerId) (number_of_int 1)"
    and "p \<equiv> or_else_nullish (opt_field options opt_processId) (number_of_int 1)"
    and "e \<equiv> or_else_falsy (opt_field options opt_epoch) DEFAULT_EPOCH"
  shows "new_SnowflakeGenerator options =
     (if number_less w (number_of_int 0) \<or> number_less (number_of_int 31) w
      then Inl (WorkerIdError 31)
      else if number_less p (number_of_int 0) \<or> number_less (number_of_int 31) p
      then Inl (ProcessIdError 31)
      else Inr \<lparr> workerId = w, processId = p, epoch = e, sequence = 0, lastTimestamp = - 1 \<rparr>)"
  by (simp add: new_SnowflakeGenerator_def Let_def MAX_values w_def p_def e_def)

text \<open>
  On numbers other than \<^verbatim>\<open>NaN\<close> the constructor does what it is meant to do: it
  throws exactly when the worker id or the process id in effect is below 0 or above 31,
  naming the field, the worker id first.
\<close>

lemma constructor_fails_iff:
  fixes options :: "SnowflakeOptions option"
  defines "w \<equiv> or_else_nullish (opt_field options opt_workerId) (number_of_int 1)"
    and "p \<equiv> or_else_nullish (opt_field options opt_processId) (number_of_int 1)"
  shows "(\<exists>err. new_SnowflakeGenerator options = Inl err) \<longleftrightarrow>
           (number_less w (number_of_int 0) \<or> number_less (number_of_int 31) w
            \<or> number_less p (number_of_int 0) \<or> number_less (number_of_int 31) p)"
  by (simp add: new_SnowflakeGenerator_cases w_def p_def)

lemma number_less_outside:
  assumes "x \<noteq> NaN"
  shows "(number_less x (number_of_int 0) \<or> number_less (number_of_int 31) x) \<longleftrightarrow>
     \<not> (\<exists>v. x = Finite v \<and> 0 \<le> v \<and> v \<le> 31)"
  using assms by (cases x) (auto simp: number_less_def number_of_int_def)

lemma constructor_validates_numbers:
  fixes options :: "SnowflakeOptions option"
  defines "w \<equiv> or_else_nullish (opt_field options opt_workerId) (number_of_int 1)"
    and "p \<equiv> or_else_nullish (opt_field options opt_processId) (number_of_int 1)"
  assumes "w \<noteq> NaN" and "p \<noteq> NaN"
  shows "(\<exists>err. new_SnowflakeGenerator options = Inl err) \<longleftrightarrow>
           \<not> ((\<exists>v. w = Finite v \<and> 0 \<le> v \<and> v \<le> 31) \<and> (\<exists>v. p = Finite v \<and> 0 \<le> v \<and> v \<le> 31))"
  using number_less_outside [OF assms(3)] number_less_outside [OF assms(4)]
    constructor_fails_iff [of options]
  unfolding w_def p_def by blast

lemma constructor_boundaries:
  "new_SnowflakeGenerator
     (Some \<lparr> opt_workerId = Some (number_of_int 32), opt_processId = p, opt_epoch = e \<rparr>)
     = Inl (WorkerIdError 31)"
  "new_SnowflakeGenerator
     (Some \<lparr> opt_workerId = Some (number_of_int (- 1)), opt_processId = p, opt_epoch = e \<rparr>)
     = Inl (WorkerIdError 31)"
  "new_SnowflakeGenerator
     (Some \<lparr> opt_workerId = Some (number_of_int 1), opt_processId = Some (number_of_int 32),
             opt_epoch = e \<rparr>)
     = Inl (ProcessIdError 31)"
  "new_SnowflakeGenerator
     (Some \<lparr> opt_workerId = Some (number_of_int 1), opt_processId = Some (number_of_int (- 1)),
             opt_epoch = e \<rparr>)
     = Inl (ProcessIdError 31)"
  "\<exists>g. new_SnowflakeGenerator
     (Some \<lparr> opt_workerId = Some (number_of_int 0), opt_processId = Some (number_of_int 1),
             opt_epoch = e \<rparr>) = Inr g"
  "\<exists>g. new_SnowflakeGenerator
     (Some \<lparr> opt_workerId = Some (number_of_int 31), opt_processId = Some (number_of_int 1),
             opt_epoch = e \<rparr>) = Inr g"
  by (simp_all add: new_SnowflakeGenerator_cases or_else_nullish_def opt_field_def)

lemma new_valid:
  assumes "new_SnowflakeGenerator opts = Inr this"
  shows "checked_identity this" "valid_sequence this" "lastTimestamp this = - 1"
    "sequence this = 0"
  using assms
  by (auto simp: new_SnowflakeGenerator_cases checked_identity_def valid_sequence_def
      split: if_splits)

lemma checked_valid_identity:
  assumes "checked_identity this" and "integral (workerId this)" and "integral (processId this)"
  shows "valid_identity this"
  using assms checked_integral_range [of "workerId this"]
    checked_integral_range [of "processId this"]
  by (simp add: checked_identity_def valid_identity_def)

text \<open>
  C7. The constructor does not throw on a worker id or a process id that is \<^verbatim>\<open>NaN\<close>,
  a number outside 0..31: both comparisons of the check are false for it. The instance it
  returns throws a \<^verbatim>\<open>RangeError\<close> on every \<^verbatim>\<open>getId\<close> that gets to pack an id.
\<close>

theorem constructor_accepts_NaN:
  "new_SnowflakeGenerator
     (Some \<lparr> opt_workerId = Some NaN, opt_processId = Some (number_of_int 1),
             opt_epoch = None \<rparr>)
     = Inr \<lparr> workerId = NaN, processId = number_of_int 1,
             epoch = number_of_int 1733011200000, sequence = 0, lastTimestamp = - 1 \<rparr>
   \<and> new_SnowflakeGenerator
     (Some \<lparr> opt_workerId = Some (number_of_int 1), opt_processId = Some NaN,
             opt_epoch = None \<rparr>)
     = Inr \<lparr> workerId = number_of_int 1, processId = NaN,
             epoch = number_of_int 1733011200000, sequence = 0, lastTimestamp = - 1 \<rparr>
   \<and> getId (\<lambda>i. 1760000000000)
       \<lparr> workerId = NaN, processId = number_of_int 1,
         epoch = number_of_int 1733011200000, sequence = 0, lastTimestamp = - 1 \<rparr> 0
     = Some (Inl RangeError,
         \<lparr> workerId = NaN, processId = number_of_int 1,
           epoch = number_of_int 1733011200000, sequence = 0,
           lastTimestamp = 1760000000000 \<rparr>, 1)"
proof -
  have n: "\<not> number_less NaN x" "\<not> number_less x NaN" for x
    by (cases x; simp add: number_less_def)+
  have c: "constructId \<lparr> workerId = NaN, processId = number_of_int 1,
           epoch = number_of_int 1733011200000, sequence = 0,
           lastTimestamp = 1760000000000 \<rparr> 1760000000000 = Inl RangeError"
    by (simp add: constructId_def BigInt_of_number_eq integral_def split: sum.splits)
  show ?thesis
    by (simp add: new_SnowflakeGenerator_cases or_else_nullish_def or_else_falsy_def
        opt_field_def DEFAULT_EPOCH_def n getId_def getCurrentTimestamp_def Let_def c)
qed

text \<open>
  C3. An epoch of 0 passed to the constructor is dropped: the instance is built with the
  default epoch 1733011200000, as if no epoch had been passed.
\<close>

theorem constructor_epoch_zero_uses_default:
  "new_SnowflakeGenerator
     (Some \<lparr> opt_workerId = Some (number_of_int 1), opt_processId = Some (number_of_int 1),
             opt_epoch = Some (number_of_int 0) \<rparr>)
     = Inr \<lparr> workerId = number_of_int 1, processId = number_of_int 1,
             epoch = number_of_int 1733011200000, sequence = 0, lastTimestamp = - 1 \<rparr>
   \<and> new_SnowflakeGenerator
     (Some \<lparr> opt_workerId = Some (number_of_int 1), opt_processId = Some (number_of_int 1),
             opt_epoch = Some (number_of_int 0) \<rparr>)
     = new_SnowflakeGenerator
     (Some \<lparr> opt_workerId = Some (number_of_int 1), opt_processId = Some (number_of_int 1),
             opt_epoch = None \<rparr>)"
  by (simp add: new_SnowflakeGenerator_cases or_else_nullish_def or_else_falsy_def
      opt_field_def DEFAULT_EPOCH_def falsy_def number_of_int_def number_less_def)

lemma constructor_epoch_truthy:
  assumes "new_SnowflakeGenerator (Some opts) = Inr g" and "opt_epoch opts = Some e"
    and "\<not> falsy e"
  shows "epoch g = e"
  using assms
  by (auto simp: new_SnowflakeGenerator_cases or_else_falsy_def opt_field_def
      split: if_splits)

lemma constructor_epoch_missing:
  assumes "new_SnowflakeGenerator opts = Inr g" and "opt_field opts opt_epoch = None"
  shows "epoch g = number_of_int 1733011200000"
  using assms
  by (auto simp: new_SnowflakeGenerator_cases or_else_falsy_def DEFAULT_EPOCH_def
      split: if_splits)

section \<open>Packing an id\<close>

lemma constructId_eq:
  "constructId this t =
     (if integral (offset this t) \<and> integral (workerId this) \<and> integral (processId this)
      then Inr (BigInt_toString (id_of this (t, sequence this)))
      else Inl RangeError)"
  by (simp add: constructId_def BigInt_of_number_eq offset_def id_of_def packId_def
      SHIFT_values)

lemma constructId_fields:
  "constructId (this\<lparr>sequence := s, lastTimestamp := l\<rparr>) t =
     (if integral (offset this t) \<and> integral (workerId this) \<and> integral (processId this)
      then Inr (BigInt_toString (id_of this (t, s)))
      else Inl RangeError)"
  by (simp add: constructId_eq offset_def id_of_def)

text \<open>The offset, when it is computed exactly.\<close>

lemma offset_exact:
  assumes "epoch this = number_of_int e" and "\<bar>t - e\<bar> \<le> 2 ^ 53"
  shows "offset this t = number_of_int (t - e)"
  using round_to_double_int_exact [OF assms(2)]
  by (simp add: offset_def number_minus_def number_of_int_def assms(1))

section \<open>The cases of a call\<close>

lemma getId_regress:
  assumes "clk pos < lastTimestamp this"
  shows "getId clk this pos
     = Some (Inl (ClockBackwardsError (lastTimestamp this - clk pos)), this, Suc pos)"
  using assms by (simp add: getId_def getCurrentTimestamp_def Let_def)

lemma getId_new_millisecond:
  assumes "lastTimestamp this < clk pos"
  shows "getId clk this pos
     = Some (constructId (this\<lparr>sequence := 0, lastTimestamp := clk pos\<rparr>) (clk pos),
             this\<lparr>sequence := 0, lastTimestamp := clk pos\<rparr>, Suc pos)"
  using assms by (simp add: getId_def getCurrentTimestamp_def Let_def)

lemma getId_same_millisecond:
  assumes "clk pos = lastTimestamp this" and "0 \<le> sequence this" and "sequence this < 4095"
  shows "getId clk this pos
     = Some (constructId (this\<lparr>sequence := sequence this + 1\<rparr>) (clk pos),
             this\<lparr>sequence := sequence this + 1\<rparr>, Suc pos)"
proof -
  have "(sequence this + 1) AND 4095 = sequence this + 1"
    using assms by (simp add: next_sequence)
  then show ?thesis
    using assms by (simp add: getId_def getCurrentTimestamp_def MAX_values Let_def)
qed

lemma getId_wrap:
  assumes "clk pos = lastTimestamp this" and "sequence this = 4095"
  shows "getId clk this pos
     = map_option
         (\<lambda>(t, p). (constructId (this\<lparr>sequence := 0, lastTimestamp := t\<rparr>) t,
                     this\<lparr>sequence := 0, lastTimestamp := t\<rparr>, p))
         (waitNextMillis clk (clk pos) (Suc pos))"
proof -
  have "(sequence this + 1) AND 4095 = 0"
    using assms by (simp add: next_sequence)
  then show ?thesis
    using assms
    by (cases "waitNextMillis clk (lastTimestamp this) (Suc pos)")
      (auto simp: getId_def getCurrentTimestamp_def MAX_values Let_def)
qed

text \<open>
  Every call that returns either found the clock behind and left the instance as it was,
  or moved the pair of \<open>lastTimestamp\<close> and \<open>sequence\<close> strictly up, to a reading of
  the clock, and returned or threw what packing the id of that pair returns or throws.
\<close>

lemma getId_step:
  assumes vs: "valid_sequence this" and g: "getId clk this pos = Some (r, this', pos')"
  shows "valid_sequence this'
     \<and> workerId this' = workerId this \<and> processId this' = processId this
     \<and> epoch this' = epoch this \<and> pos < pos'
     \<and> ((r = Inl (ClockBackwardsError (lastTimestamp this - clk pos))
           \<and> clk pos < lastTimestamp this \<and> this' = this)
         \<or> (r = constructId this' (lastTimestamp this') \<and> key_less (key this) (key this')
           \<and> lastTimestamp this' = clk (pos' - 1)))"
proof -
  have "clk pos < lastTimestamp this \<or> lastTimestamp this < clk pos
      \<or> (clk pos = lastTimestamp this \<and> sequence this < 4095)
      \<or> (clk pos = lastTimestamp this \<and> sequence this = 4095)"
    using vs by (auto simp: valid_sequence_def)
  then consider (regress) "clk pos < lastTimestamp this"
    | (new) "lastTimestamp this < clk pos"
    | (same) "clk pos = lastTimestamp this" "sequence this < 4095"
    | (wrap) "clk pos = lastTimestamp this" "sequence this = 4095"
    by blast
  then show ?thesis
  proof cases
    case regress
    with g vs show ?thesis
      by (auto simp: getId_regress)
  next
    case new
    with g vs show ?thesis
      by (auto simp: getId_new_millisecond valid_sequence_def key_less_def key_def)
  next
    case same
    from vs have "0 \<le> sequence this" by (simp add: valid_sequence_def)
    with g same vs show ?thesis
      by (auto simp: getId_same_millisecond valid_sequence_def key_less_def key_def)
  next
    case wrap
    from g wrap obtain t where w: "waitNextMillis clk (clk pos) (Suc pos) = Some (t, pos')"
      and r: "r = constructId (this\<lparr>sequence := 0, lastTimestamp := t\<rparr>) t"
        "this' = this\<lparr>sequence := 0, lastTimestamp := t\<rparr>"
      by (auto simp: getId_wrap)
    from waitNextMillis_result [OF w]
    have t: "clk pos < t" "Suc pos < pos'" "t = clk (pos' - 1)"
      by simp_all
    with r wrap show ?thesis
      by (simp add: valid_sequence_def key_less_def key_def)
  qed
qed

section \<open>Calls in a row\<close>

lemma key_less_trans: "key_less k l \<Longrightarrow> key_less l m \<Longrightarrow> key_less k m"
  by (auto simp: key_less_def)

lemma same_identity:
  assumes "workerId a = workerId b" and "processId a = processId b" and "epoch a = epoch b"
  shows "id_of a = id_of b" and "offset a = offset b"
  using assms by (simp_all add: id_of_def offset_def fun_eq_iff)

text \<open>
  The ids that calls in a row return are the ids of pairs of a reading of the clock and a
  sequence, and these pairs go strictly up, from above the pair the instance starts with.
\<close>

lemma calls_keys:
  assumes "valid_sequence this" and "calls clk n this pos = Some (rs, this', pos')"
  shows "valid_sequence this'
     \<and> workerId this' = workerId this \<and> processId this' = processId this
     \<and> epoch this' = epoch this \<and> pos \<le> pos'
     \<and> (key this' = key this \<or> key_less (key this) (key this'))
     \<and> (\<exists>ks. ids_of rs = map (\<lambda>k. BigInt_toString (id_of this k)) ks
           \<and> sorted_wrt key_less ks
           \<and> (\<forall>k \<in> set ks. key_less (key this) k
                 \<and> (k = key this' \<or> key_less k (key this'))
                 \<and> 0 \<le> snd k \<and> snd k \<le> 4095
                 \<and> (\<exists>j. pos \<le> j \<and> j < pos' \<and> fst k = clk j)
                 \<and> integral (offset this (fst k))
                 \<and> integral (workerId this) \<and> integral (processId this)))"
  using assms
proof (induction n arbitrary: this pos rs)
  case 0
  then show ?case by simp
next
  case (Suc n)
  let ?P = "\<lambda>this pos k. key_less (key this) k
      \<and> (k = key this' \<or> key_less k (key this'))
      \<and> 0 \<le> snd k \<and> snd k \<le> 4095
      \<and> (\<exists>j. pos \<le> j \<and> j < pos' \<and> fst k = clk j)
      \<and> integral (offset this (fst k))
      \<and> integral (workerId this) \<and> integral (processId this)"
  from Suc.prems(2) obtain r this1 pos1 rs1 where
    g: "getId clk this pos = Some (r, this1, pos1)"
    and c: "calls clk n this1 pos1 = Some (rs1, this', pos')"
    and rs: "rs = r # rs1"
    by (auto split: option.splits prod.splits)
  note st = getId_step [OF Suc.prems(1) g]
  from st have v1: "valid_sequence this1" and same: "workerId this1 = workerId this"
    "processId this1 = processId this" "epoch this1 = epoch this" and pos: "pos < pos1"
    by simp_all
  note sid = same_identity [OF same]
  note ih = Suc.IH [OF v1 c]
  from ih have fin: "valid_sequence this'" "workerId this' = workerId this"
    "processId this' = processId this" "epoch this' = epoch this" "pos \<le> pos'"
    and up1: "key this' = key this1 \<or> key_less (key this1) (key this')"
    using same pos by simp_all
  from ih obtain ks where ks: "ids_of rs1 = map (\<lambda>k. BigInt_toString (id_of this k)) ks"
    "sorted_wrt key_less ks" and P1: "\<forall>k \<in> set ks. ?P this1 pos1 k"
    unfolding sid same by blast
  from st consider (regress) "r = Inl (ClockBackwardsError (lastTimestamp this - clk pos))"
      "this1 = this"
    | (moved) "r = constructId this1 (lastTimestamp this1)" "key_less (key this) (key this1)"
      "lastTimestamp this1 = clk (pos1 - 1)"
    by blast
  then show ?case
  proof cases
    case regress
    have "\<forall>k \<in> set ks. ?P this pos k"
    proof
      fix k assume "k \<in> set ks"
      with P1 have "?P this1 pos1 k" by blast
      then show "?P this pos k"
        using pos regress(2) by (meson less_imp_le_nat order_trans)
    qed
    with ks regress rs fin up1 show ?thesis
      by auto
  next
    case moved
    have up: "key_less (key this) (key this')"
      using up1 moved(2) by (auto intro: key_less_trans)
    have P: "\<forall>k \<in> set ks. ?P this pos k"
    proof
      fix k assume "k \<in> set ks"
      with P1 have k: "?P this1 pos1 k" by blast
      then have "key_less (key this) k"
        using moved(2) by (blast intro: key_less_trans)
      moreover from k obtain j where "pos1 \<le> j" "j < pos'" "fst k = clk j" by blast
      with pos have "\<exists>j. pos \<le> j \<and> j < pos' \<and> fst k = clk j"
        by (meson less_imp_le_nat order_trans)
      ultimately show "?P this pos k"
        using k unfolding sid same by blast
    qed
    show ?thesis
    proof (cases r)
      case (Inl err)
      with ks rs have "ids_of rs = map (\<lambda>k. BigInt_toString (id_of this k)) ks"
        by simp
      with ks(2) P fin up show ?thesis
        by blast
    next
      case (Inr s)
      with moved(1) have ok: "integral (offset this1 (lastTimestamp this1))"
        "integral (workerId this1)" "integral (processId this1)"
        and s: "s = BigInt_toString (id_of this1 (key this1))"
        by (auto simp: constructId_eq key_def split: if_splits)
      from ih have "pos1 \<le> pos'" by simp
      with pos have "pos \<le> pos1 - 1" "pos1 - 1 < pos'"
        by arith+
      with moved(3) have j: "\<exists>j. pos \<le> j \<and> j < pos' \<and> fst (key this1) = clk j"
        by (auto simp: key_def)
      have "?P this pos (key this1)"
        using moved(2) up1 v1 j ok unfolding sid same
        by (auto simp: valid_sequence_def key_def)
      with P have all: "\<forall>k \<in> set (key this1 # ks). ?P this pos k"
        by simp
      have sorted: "sorted_wrt key_less (key this1 # ks)"
        using ks(2) P1 by simp
      have "ids_of rs = map (\<lambda>k. BigInt_toString (id_of this k)) (key this1 # ks)"
        using rs Inr s ks(1) unfolding sid by simp
      with sorted all fin up show ?thesis
        by blast
    qed
  qed
qed

section \<open>The order of the packed ids\<close>

lemma id_of_less:
  assumes "valid_identity this"
    and "0 \<le> snd k" "snd k \<le> 4095" "0 \<le> snd l" "snd l \<le> 4095"
    and "key_less k l"
    and "fst k < fst l \<Longrightarrow> int_of (offset this (fst k)) < int_of (offset this (fst l))"
  shows "id_of this k < id_of this l"
  unfolding id_of_def
  using assms by (intro packId_less) (auto simp: valid_identity_def key_less_def)

text \<open>The offsets of readings between the epoch and the epoch plus \<open>2^41 - 1\<close>.\<close>

lemma offset_near:
  assumes "epoch this = Finite e" and "e \<le> of_int t" and "of_int t \<le> e + 2 ^ 41 - 1"
    and "integral (offset this t)"
  shows "\<bar>of_int (int_of (offset this t)) - (of_int t - e)\<bar> \<le> (1 :: rat) / 8192"
proof -
  have "0 \<le> of_int t - e" "of_int t - e < 2 ^ 41"
    using assms(2,3) by simp_all
  from round_to_double_near [OF this] obtain y where
    y: "round_to_double (of_int t - e) = Finite y" "\<bar>y - (of_int t - e)\<bar> \<le> 1 / 8192"
    by blast
  then have o: "offset this t = Finite y"
    by (simp add: offset_def number_minus_def number_of_int_def assms(1))
  with assms(4) have "of_int (int_of (offset this t)) = y"
    by (simp add: integral_def int_of_def)
  with y(2) show ?thesis by simp
qed

lemma offset_in_range:
  assumes "epoch this = Finite e" and "e \<le> of_int t" and "of_int t \<le> e + 2 ^ 41 - 1"
    and "integral (offset this t)"
  shows "0 \<le> int_of (offset this t)" and "int_of (offset this t) \<le> 2 ^ 41 - 1"
proof -
  let ?a = "int_of (offset this t)"
  note near = offset_near [OF assms]
  have "- 1 < (of_int ?a :: rat)"
    using near assms(2) by linarith
  then have "- 1 < ?a" by linarith
  then show "0 \<le> ?a" by simp
  have "(of_int ?a :: rat) < 2 ^ 41"
    using near assms(3) by linarith
  then have "(of_int ?a :: rat) < of_int (2 ^ 41)" by simp
  then have "?a < 2 ^ 41" by (simp only: of_int_less_iff)
  then show "?a \<le> 2 ^ 41 - 1" by simp
qed

lemma offset_strict:
  assumes "epoch this = Finite e"
    and "e \<le> of_int t" and "of_int t \<le> e + 2 ^ 41 - 1" and "integral (offset this t)"
    and "e \<le> of_int u" and "of_int u \<le> e + 2 ^ 41 - 1" and "integral (offset this u)"
    and "t < u"
  shows "int_of (offset this t) < int_of (offset this u)"
proof -
  note nt = offset_near [OF assms(1-4)] and nu = offset_near [OF assms(1) assms(5-7)]
  from assms(8) have "t + 1 \<le> u" by simp
  then have "(of_int t :: rat) + 1 \<le> of_int u"
    by (metis of_int_1 of_int_add of_int_le_iff)
  with nt nu have "(of_int (int_of (offset this t)) :: rat) < of_int (int_of (offset this u))"
    by linarith
  then show ?thesis by (simp only: of_int_less_iff)
qed

lemma constructId_integers:
  assumes "workerId this = number_of_int w" and "processId this = number_of_int p"
    and "epoch this = number_of_int e" and "\<bar>t - e\<bar> \<le> 2 ^ 53"
  shows "constructId this t = Inr (BigInt_toString (packId (t - e) w p (sequence this)))"
  using offset_exact [OF assms(3,4)] assms(1,2)
  by (simp add: constructId_eq id_of_def)

section \<open>Monotonicity\<close>

text \<open>
  C1. On an instance the constructor returned, under a clock whose successive readings
  never decrease and all lie between the epoch and the epoch plus \<open>2^41 - 1\<close>, the ids
  that any number of calls of \<^verbatim>\<open>getId\<close> in a row return are decimal numerals of
  integers below \<open>2^64\<close> that strictly increase in the order of the calls, as integers
  and as unsigned 64-bit words; so they are pairwise distinct.
\<close>

theorem getId_ids_strictly_increasing:
  assumes "new_SnowflakeGenerator opts = Inr this"
    and "\<forall>i. clk i \<le> clk (Suc i)"
    and "epoch this = Finite e"
    and "\<forall>i. e \<le> of_int (clk i) \<and> of_int (clk i) \<le> e + 2 ^ 41 - 1"
    and "calls clk n this pos = Some (rs, this', pos')"
  shows "\<exists>ns. map StringToBigInt (ids_of rs) = map Some ns
           \<and> (\<forall>v \<in> set ns. 0 \<le> v \<and> v < 2 ^ 64)
           \<and> sorted_wrt (<) ns
           \<and> sorted_wrt (<) (map (\<lambda>v. word_of_int v :: 64 word) ns)
           \<and> distinct (ids_of rs)"
proof -
  note v = new_valid [OF assms(1)]
  from calls_keys [OF v(2) assms(5)] obtain ks where
    ids: "ids_of rs = map (\<lambda>k. BigInt_toString (id_of this k)) ks"
    and sorted: "sorted_wrt key_less ks"
    and ks: "\<forall>k \<in> set ks. 0 \<le> snd k \<and> snd k \<le> 4095
        \<and> (\<exists>j. pos \<le> j \<and> j < pos' \<and> fst k = clk j)
        \<and> integral (offset this (fst k))
        \<and> integral (workerId this) \<and> integral (processId this)"
    by blast
  define ns where "ns = map (id_of this) ks"
  have in_range: "e \<le> of_int (fst k) \<and> of_int (fst k) \<le> e + 2 ^ 41 - 1" if "k \<in> set ks" for k
  proof -
    from ks that obtain j where "fst k = clk j" by blast
    with assms(4) [rule_format, of j] show ?thesis by simp
  qed
  have ident: "valid_identity this" if "k \<in> set ks" for k
    using ks that checked_valid_identity [OF v(1)] by blast
  have less: "id_of this k < id_of this l"
    if "k \<in> set ks" "l \<in> set ks" "key_less k l" for k l
  proof (rule id_of_less [OF ident [OF that(1)] _ _ _ _ that(3)])
    show "0 \<le> snd k" "snd k \<le> 4095" "0 \<le> snd l" "snd l \<le> 4095"
      using ks that by blast+
    assume "fst k < fst l"
    moreover have "integral (offset this (fst k))" "integral (offset this (fst l))"
      using ks that by blast+
    ultimately show "int_of (offset this (fst k)) < int_of (offset this (fst l))"
      using in_range [OF that(1)] in_range [OF that(2)]
      by (intro offset_strict [OF assms(3)]) simp_all
  qed
  have sorted_ns: "sorted_wrt (<) ns"
    unfolding ns_def sorted_wrt_map
    by (rule sorted_wrt_mono_rel [OF _ sorted]) (rule less)
  have range: "\<forall>v \<in> set ns. 0 \<le> v \<and> v < 2 ^ 63"
  proof
    fix v assume "v \<in> set ns"
    then obtain k where k: "k \<in> set ks" and veq: "v = id_of this k"
      by (auto simp: ns_def)
    have int: "integral (offset this (fst k))" and s: "0 \<le> snd k" "snd k \<le> 4095"
      using ks k by blast+
    note r = in_range [OF k]
    note a = offset_in_range [OF assms(3) r [THEN conjunct1] r [THEN conjunct2] int]
    from ident [OF k] s a show "0 \<le> v \<and> v < 2 ^ 63"
      unfolding veq id_of_def valid_identity_def by (intro conjI packId_range) simp_all
  qed
  have 1: "map StringToBigInt (ids_of rs) = map Some ns"
    by (simp add: ids ns_def StringToBigInt_toString comp_def)
  have 2: "\<forall>v \<in> set ns. 0 \<le> v \<and> v < 2 ^ 64"
    using range by auto
  have "distinct ns"
    using sorted_ns by (simp add: strict_sorted_iff)
  moreover have "ids_of rs = map BigInt_toString ns"
    by (simp add: ids ns_def comp_def)
  ultimately have 3: "distinct (ids_of rs)"
    by (simp add: distinct_map inj_on_subset [OF BigInt_toString_inj])
  have 4: "sorted_wrt (<) (map (\<lambda>v. word_of_int v :: 64 word) ns)"
    unfolding sorted_wrt_map
  proof (rule sorted_wrt_mono_rel [OF _ sorted_ns])
    fix x y assume "x \<in> set ns" "y \<in> set ns" "x < y"
    with 2 have "0 \<le> x" "x < 2 ^ 64" "0 \<le> y" "y < 2 ^ 64" by auto
    with \<open>x < y\<close> show "(word_of_int x :: 64 word) < word_of_int y"
      by (simp add: word_less_def uint_word_of_int take_bit_int_eq_self)
  qed
  from 1 2 sorted_ns 4 3 show ?thesis by blast
qed

theorem getId_ids_strictly_increasing_witness:
  "\<exists>rs this' pos'.
     calls (\<lambda>i. if i < 2 then 1733011201000 else 1733011201001) 3
       \<lparr> workerId = number_of_int 1, processId = number_of_int 1,
         epoch = number_of_int 1733011200000, sequence = 0, lastTimestamp = - 1 \<rparr> 0
       = Some (rs, this', pos')
     \<and> ids_of rs = [BigInt_toString 4194439168, BigInt_toString 4194439169,
                    BigInt_toString 4198633472]
     \<and> (\<exists>ns. map StringToBigInt (ids_of rs) = map Some ns
            \<and> (\<forall>v \<in> set ns. 0 \<le> v \<and> v < 2 ^ 64)
            \<and> sorted_wrt (<) ns
            \<and> sorted_wrt (<) (map (\<lambda>v. word_of_int v :: 64 word) ns)
            \<and> distinct (ids_of rs))"
proof -
  let ?clk = "\<lambda>i::nat. if i < 2 then 1733011201000 else (1733011201001::int)"
  let ?g = "\<lparr> workerId = number_of_int 1, processId = number_of_int 1,
              epoch = number_of_int 1733011200000, sequence = 0, lastTimestamp = - 1 \<rparr>"
  let ?g1 = "\<lparr> workerId = number_of_int 1, processId = number_of_int 1,
               epoch = number_of_int 1733011200000, sequence = 0,
               lastTimestamp = 1733011201000 \<rparr>"
  let ?g2 = "\<lparr> workerId = number_of_int 1, processId = number_of_int 1,
               epoch = number_of_int 1733011200000, sequence = 1,
               lastTimestamp = 1733011201000 \<rparr>"
  let ?g3 = "\<lparr> workerId = number_of_int 1, processId = number_of_int 1,
               epoch = number_of_int 1733011200000, sequence = 0,
               lastTimestamp = 1733011201001 \<rparr>"
  let ?rs = "[Inr (BigInt_toString 4194439168), Inr (BigInt_toString 4194439169),
              Inr (BigInt_toString 4198633472)] :: (error + string) list"
  have new: "new_SnowflakeGenerator None = Inr ?g"
    by (simp add: new_SnowflakeGenerator_cases or_else_nullish_def or_else_falsy_def
        opt_field_def DEFAULT_EPOCH_def)
  have mono: "\<forall>i. ?clk i \<le> ?clk (Suc i)"
    by simp
  have epoch: "epoch ?g = Finite 1733011200000"
    by (simp add: number_of_int_def)
  have bounds: "\<forall>i. (1733011200000 :: rat) \<le> of_int (?clk i)
      \<and> of_int (?clk i) \<le> (1733011200000 :: rat) + 2 ^ 41 - 1"
    by simp
  have i1: "constructId ?g1 1733011201000 = Inr (BigInt_toString 4194439168)"
    using constructId_integers [of ?g1 1 1 1733011200000 1733011201000]
    by (simp add: packId_sum)
  have i2: "constructId ?g2 1733011201000 = Inr (BigInt_toString 4194439169)"
    using constructId_integers [of ?g2 1 1 1733011200000 1733011201000]
    by (simp add: packId_sum)
  have i3: "constructId ?g3 1733011201001 = Inr (BigInt_toString 4198633472)"
    using constructId_integers [of ?g3 1 1 1733011200000 1733011201001]
    by (simp add: packId_sum)
  have c1: "getId ?clk ?g 0 = Some (Inr (BigInt_toString 4194439168), ?g1, Suc 0)"
    using getId_new_millisecond [of ?g ?clk 0] by (simp add: i1)
  have c2: "getId ?clk ?g1 (Suc 0)
      = Some (Inr (BigInt_toString 4194439169), ?g2, Suc (Suc 0))"
    using getId_same_millisecond [of ?clk "Suc 0" ?g1] by (simp add: i2)
  have c3: "getId ?clk ?g2 (Suc (Suc 0))
      = Some (Inr (BigInt_toString 4198633472), ?g3, Suc (Suc (Suc 0)))"
    using getId_new_millisecond [of ?g2 ?clk "Suc (Suc 0)"] by (simp add: i3)
  have "calls ?clk (Suc (Suc (Suc 0))) ?g 0 = Some (?rs, ?g3, Suc (Suc (Suc 0)))"
    by (simp add: c1 c2 c3)
  then have run: "calls ?clk 3 ?g 0 = Some (?rs, ?g3, 3)"
    by (simp add: numeral_3_eq_3)
  have ids: "ids_of ?rs = [BigInt_toString 4194439168, BigInt_toString 4194439169,
      BigInt_toString 4198633472]"
    by simp
  note concl = getId_ids_strictly_increasing [OF new mono epoch bounds run]
  from run ids concl show ?thesis
    by blast
qed

section \<open>A clock that moved backwards\<close>



text \<open>
  C8. A call of \<^verbatim>\<open>getId\<close> that throws the error of a clock that moved backwards
  is one that found the clock behind \<open>lastTimestamp\<close>, and it leaves the instance as it
  was: \<open>lastTimestamp\<close> and \<open>sequence\<close> keep their values, and every later call does
  what it would have done had the failed call not been made.
\<close>

theorem getId_failure_keeps_state:
  assumes "getId clk this pos = Some (Inl (ClockBackwardsError d), this', pos')"
  shows "this' = this
     \<and> lastTimestamp this' = lastTimestamp this \<and> sequence this' = sequence this
     \<and> d = lastTimestamp this - clk pos
     \<and> clk pos < lastTimestamp this
     \<and> (\<forall>clk2 p. getId clk2 this' p = getId clk2 this p)"
proof -
  have "clk pos < lastTimestamp this"
  proof (rule ccontr)
    assume "\<not> clk pos < lastTimestamp this"
    with assms show False
      by (auto simp: getId_def getCurrentTimestamp_def Let_def constructId_eq
          split: if_splits option.splits prod.splits)
  qed
  with assms show ?thesis
    by (auto simp: getId_regress)
qed

theorem getId_failure_keeps_state_witness:
  "getId (\<lambda>i. if i = 0 then 3 else 12)
     \<lparr> workerId = number_of_int 1, processId = number_of_int 1, epoch = number_of_int 0,
       sequence = 7, lastTimestamp = 10 \<rparr> 0
     = Some (Inl (ClockBackwardsError 7),
         \<lparr> workerId = number_of_int 1, processId = number_of_int 1, epoch = number_of_int 0,
           sequence = 7, lastTimestamp = 10 \<rparr>, 1)
   \<and> getId (\<lambda>i. if i = 0 then 3 else 12)
     \<lparr> workerId = number_of_int 1, processId = number_of_int 1, epoch = number_of_int 0,
       sequence = 7, lastTimestamp = 10 \<rparr> 1
     = Some (Inr (BigInt_toString 50466816),
         \<lparr> workerId = number_of_int 1, processId = number_of_int 1, epoch = number_of_int 0,
           sequence = 0, lastTimestamp = 12 \<rparr>, 2)"
proof -
  let ?clk = "\<lambda>i::nat. if i = 0 then 3 else (12::int)"
  let ?g = "\<lparr> workerId = number_of_int 1, processId = number_of_int 1,
              epoch = number_of_int 0, sequence = 7, lastTimestamp = 10 \<rparr>"
  let ?g' = "\<lparr> workerId = number_of_int 1, processId = number_of_int 1,
               epoch = number_of_int 0, sequence = 0, lastTimestamp = 12 \<rparr>"
  have fail: "getId ?clk ?g 0 = Some (Inl (ClockBackwardsError 7), ?g, 1)"
    by (simp add: getId_regress)
  have "constructId ?g' 12 = Inr (BigInt_toString 50466816)"
    using constructId_integers [of ?g' 1 1 0 12] by (simp add: packId_sum)
  then have "getId ?clk ?g 1 = Some (Inr (BigInt_toString 50466816), ?g', 2)"
    using getId_new_millisecond [of ?g ?clk 1] by simp
  with getId_failure_keeps_state [OF fail] fail show ?thesis
    by simp
qed

section \<open>Decoding\<close>

lemma and_mask_bounds:
  fixes x :: int
  shows "0 \<le> x AND 31" "x AND 31 \<le> 31" "0 \<le> x AND 4095" "x AND 4095 \<le> 4095"
proof -
  have "take_bit 5 x < 2 ^ 5" "take_bit 12 x < 2 ^ 12"
    by (rule take_bit_int_less_exp)+
  then show "0 \<le> x AND 31" "x AND 31 \<le> 31" "0 \<le> x AND 4095" "x AND 4095 \<le> 4095"
    by (simp_all add: and31 and4095)
qed

lemma deconstruct_parsed:
  assumes "StringToBigInt s = Some n" and "epoch this = number_of_int e"
  shows "deconstruct this s =
     Inr \<lparr> d_timestamp = Number (drop_bit 22 n + e),
           d_workerId = number_of_int (drop_bit 17 n AND 31),
           d_processId = number_of_int (drop_bit 12 n AND 31),
           d_sequence = number_of_int (n AND 4095),
           d_date = new_Date (Number (drop_bit 22 n + e)) \<rparr>"
proof -
  have "\<bar>drop_bit 17 n AND 31\<bar> \<le> 2 ^ 53" "\<bar>drop_bit 12 n AND 31\<bar> \<le> 2 ^ 53"
    "\<bar>n AND 4095\<bar> \<le> 2 ^ 53"
    using and_mask_bounds [of "drop_bit 17 n"] and_mask_bounds [of "drop_bit 12 n"]
      and_mask_bounds [of n] by simp_all
  then show ?thesis
    using assms
    by (simp add: deconstruct_def Let_def SHIFT_values MAX_values Number_exact
        BigInt_of_number_eq)
qed

text \<open>
  \<^verbatim>\<open>BigInt(this.epoch)\<close> throws on an epoch that is not an integer, whatever the id.
\<close>

lemma deconstruct_epoch_not_integer:
  assumes "StringToBigInt s = Some n" and "\<not> integral (epoch this)"
  shows "deconstruct this s = Inl RangeError"
  using assms by (simp add: deconstruct_def BigInt_of_number_eq)

lemma deconstruct_not_parsed:
  assumes "StringToBigInt s = None"
  shows "deconstruct this s = Inl SyntaxError"
  using assms by (simp add: deconstruct_def)



text \<open>
  C9, as stated, fails on the timestamp: the id 37771663087148961103872 parses, its
  shift by 22 bits plus the default epoch is \<open>2^53 + 1\<close>, and the timestamp returned
  is \<open>2^53\<close>, the nearest double.
\<close>

theorem deconstruct_timestamp_rounded_counterexample:
  "StringToBigInt ''37771663087148961103872'' = Some 37771663087148961103872
   \<and> drop_bit 22 (37771663087148961103872 :: int) + 1733011200000 = 9007199254740993
   \<and> deconstruct
       \<lparr> workerId = number_of_int 1, processId = number_of_int 1,
         epoch = number_of_int 1733011200000, sequence = 0, lastTimestamp = - 1 \<rparr>
       ''37771663087148961103872''
     = Inr \<lparr> d_timestamp = number_of_int 9007199254740992, d_workerId = number_of_int 0,
             d_processId = number_of_int 0, d_sequence = number_of_int 0,
             d_date = None \<rparr>"
proof -
  let ?g = "\<lparr> workerId = number_of_int 1, processId = number_of_int 1,
              epoch = number_of_int 1733011200000, sequence = 0, lastTimestamp = - 1 \<rparr>"
  have s: "BigInt_toString 37771663087148961103872 = ''37771663087148961103872''"
    by (simp add: BigInt_toString_def digits_of_nat.simps digit_char_values)
  have p: "StringToBigInt ''37771663087148961103872'' = Some 37771663087148961103872"
    using StringToBigInt_toString [of 37771663087148961103872] by (simp only: s)
  have d: "drop_bit 22 (37771663087148961103872 :: int) = 9005466243540993"
    by (simp add: drop_bit_eq_div)
  have b: "bit_length 9007199254740993 = Suc 53"
    by (rule bit_length_between) simp_all
  have f: "\<lfloor>(9007199254740993 :: rat) / 2\<rfloor> = 4503599627370496"
    by (simp add: floor_eq_iff)
  have n: "Number 9007199254740993 = number_of_int 9007199254740992"
    by (simp add: Number_def round_to_double_def binary_exponent_def b pow2_def
        round_half_even_def Let_def number_of_int_def f)
  have a: "(37771663087148961103872 :: int) AND 4095 = 0"
    "drop_bit 17 (37771663087148961103872 :: int) AND 31 = 0"
    "drop_bit 12 (37771663087148961103872 :: int) AND 31 = 0"
    by (simp_all add: and31 and4095 take_bit_eq_mod drop_bit_eq_div)
  have date: "new_Date (number_of_int 9007199254740992) = None"
    by (simp add: new_Date_def number_of_int_def)
  have "deconstruct ?g ''37771663087148961103872''
     = Inr \<lparr> d_timestamp = number_of_int 9007199254740992, d_workerId = number_of_int 0,
             d_processId = number_of_int 0, d_sequence = number_of_int 0,
             d_date = None \<rparr>"
    using deconstruct_parsed [OF p, of ?g 1733011200000] by (simp add: d n a date)
  with p d show ?thesis
    by simp
qed

text \<open>
  C9, amended. With an epoch that is an integer, on every string that \<^verbatim>\<open>BigInt\<close>
  reads as an integer \<open>n\<close>, \<^verbatim>\<open>deconstruct\<close> returns without throwing; the worker id
  and the process id it returns are the masked fields of \<open>n\<close> and lie in 0..31, the
  sequence is the masked field and lies in 0..4095; the timestamp is \<open>Number\<close> of \<open>n\<close>
  shifted right by 22 bits plus the epoch, which is that sum itself whenever its magnitude
  is at most \<open>2^53\<close>.
\<close>

theorem deconstruct_total_on_integers:
  assumes "StringToBigInt s = Some n" and "epoch this = number_of_int e"
  shows "\<exists>w p q.
     deconstruct this s
       = Inr \<lparr> d_timestamp = Number (drop_bit 22 n + e),
               d_workerId = number_of_int w, d_processId = number_of_int p,
               d_sequence = number_of_int q,
               d_date = new_Date (Number (drop_bit 22 n + e)) \<rparr>
     \<and> w = drop_bit 17 n AND 31 \<and> 0 \<le> w \<and> w \<le> 31
     \<and> p = drop_bit 12 n AND 31 \<and> 0 \<le> p \<and> p \<le> 31
     \<and> q = n AND 4095 \<and> 0 \<le> q \<and> q \<le> 4095
     \<and> (\<bar>drop_bit 22 n + e\<bar> \<le> 2 ^ 53 \<longrightarrow>
          Number (drop_bit 22 n + e) = number_of_int (drop_bit 22 n + e))"
  using deconstruct_parsed [OF assms] and_mask_bounds [of "drop_bit 17 n"]
    and_mask_bounds [of "drop_bit 12 n"] and_mask_bounds [of n]
  by (simp add: Number_exact)

theorem deconstruct_total_on_integers_witness:
  "deconstruct
     \<lparr> workerId = number_of_int 1, processId = number_of_int 1,
       epoch = number_of_int 1733011200000, sequence = 0, lastTimestamp = - 1 \<rparr> ''-1''
     = Inr \<lparr> d_timestamp = number_of_int 1733011199999, d_workerId = number_of_int 31,
             d_processId = number_of_int 31, d_sequence = number_of_int 4095,
             d_date = Some 1733011199999 \<rparr>"
proof -
  let ?g = "\<lparr> workerId = number_of_int 1, processId = number_of_int 1,
              epoch = number_of_int 1733011200000, sequence = 0, lastTimestamp = - 1 \<rparr>"
  have "BigInt_toString (- 1) = ''-1''"
    by (simp add: BigInt_toString_def digits_of_nat.simps digit_char_values)
  with StringToBigInt_toString [of "- 1"] have p: "StringToBigInt ''-1'' = Some (- 1)"
    by simp
  have e: "epoch ?g = number_of_int 1733011200000"
    by simp
  have n: "Number 1733011199999 = number_of_int 1733011199999"
    by (rule Number_exact) simp
  have d: "new_Date (number_of_int 1733011199999) = Some 1733011199999"
    by (simp add: new_Date_def number_of_int_def)
  from deconstruct_total_on_integers [OF p e] n d show ?thesis
    by simp
qed

section \<open>The service builds a generator for every call\<close>

lemma getId_fresh:
  assumes "new_SnowflakeGenerator fo = Inr g"
  shows "getId clk g pos =
     (if clk pos < - 1 then Some (Inl (ClockBackwardsError (- 1 - clk pos)), g, Suc pos)
      else if clk pos = - 1
        then Some (constructId (g\<lparr>sequence := 1\<rparr>) (- 1), g\<lparr>sequence := 1\<rparr>, Suc pos)
      else Some (constructId (g\<lparr>sequence := 0, lastTimestamp := clk pos\<rparr>) (clk pos),
                 g\<lparr>sequence := 0, lastTimestamp := clk pos\<rparr>, Suc pos))"
proof -
  note v = new_valid [OF assms]
  show ?thesis
  proof (cases "clk pos < - 1")
    case True
    then show ?thesis using v(3) by (simp add: getId_regress)
  next
    case False
    show ?thesis
    proof (cases "clk pos = - 1")
      case True
      then show ?thesis
        using getId_same_millisecond [of clk pos g] v(3,4) by simp
    next
      case False
      with \<open>\<not> clk pos < - 1\<close> have "lastTimestamp g < clk pos"
        using v(3) by simp
      from getId_new_millisecond [of g clk pos, OF this] False \<open>\<not> clk pos < - 1\<close>
      show ?thesis
        by simp
    qed
  qed
qed

lemma sequence_of_constructId:
  assumes "checked_identity g" and "0 \<le> sequence g" and "sequence g \<le> 4095"
    and "constructId g t = Inr s"
  shows "\<exists>n. StringToBigInt s = Some n \<and> n AND 4095 = sequence g"
proof -
  from assms(4) have i: "integral (workerId g)" "integral (processId g)"
    and s: "s = BigInt_toString (id_of g (t, sequence g))"
    by (auto simp: constructId_eq split: if_splits)
  from checked_valid_identity [OF assms(1) i] assms(2,3) show ?thesis
    by (simp add: s StringToBigInt_toString id_of_def packId_fields valid_identity_def)
qed


text \<open>
  At every other reading the claim holds. A call of \<^verbatim>\<open>getSnowflake\<close> that returns an
  id has built a generator, which starts at \<open>lastTimestamp = -1\<close> and \<open>sequence = 0\<close>,
  and has returned the id of its first \<^verbatim>\<open>getId\<close>; the sequence field of that id is 0
  whenever the clock did not read -1, which is what \<^verbatim>\<open>deconstruct\<close> returns for it
  with any integer epoch; and every call with the same options that reads the same
  millisecond returns the very same id.
\<close>

lemma getSnowflake_fresh_generator:
  assumes "getSnowflake clk this opts pos = Some (Inr s, pos')"
  shows "\<exists>g g' n.
       new_SnowflakeGenerator (case opts of Some v \<Rightarrow> Some v | None \<Rightarrow> snowflake (options this))
         = Inr g
     \<and> lastTimestamp g = - 1 \<and> sequence g = 0
     \<and> getId clk g pos = Some (Inr s, g', pos')
     \<and> StringToBigInt s = Some n
     \<and> (\<forall>that e. epoch that = number_of_int e \<longrightarrow>
          (\<exists>d. deconstruct that s = Inr d \<and> d_sequence d = number_of_int (n AND 4095)))
     \<and> (clk pos \<noteq> - 1 \<longrightarrow> n AND 4095 = 0)
     \<and> (\<forall>pos2. clk pos2 = clk pos \<longrightarrow>
           getSnowflake clk this opts pos2 = Some (Inr s, Suc pos2))"
proof -
  let ?fo = "case opts of Some v \<Rightarrow> Some v | None \<Rightarrow> snowflake (options this)"
  from assms obtain g g' where g: "new_SnowflakeGenerator ?fo = Inr g"
    and r: "getId clk g pos = Some (Inr s, g', pos')"
    by (auto simp: getSnowflake_def split: sum.splits)
  note v = new_valid [OF g]
  note f = getId_fresh [OF g]
  from r f [of clk pos] have ge: "\<not> clk pos < - 1"
    by auto
  have same: "getSnowflake clk this opts pos2 = Some (Inr s, Suc pos2)"
    if "clk pos2 = clk pos" for pos2
    using r f [of clk pos] f [of clk pos2] that g
    by (auto simp: getSnowflake_def split: if_splits)
  have "\<exists>n. StringToBigInt s = Some n \<and> n AND 4095 = (if clk pos = - 1 then 1 else 0)"
  proof (cases "clk pos = - 1")
    case True
    with r f [of clk pos] have "constructId (g\<lparr>sequence := 1\<rparr>) (- 1) = Inr s"
      by auto
    from sequence_of_constructId [OF _ _ _ this] v(1) True show ?thesis
      by (simp add: checked_identity_def)
  next
    case False
    with r f [of clk pos] ge
    have "constructId (g\<lparr>sequence := 0, lastTimestamp := clk pos\<rparr>) (clk pos) = Inr s"
      by auto
    from sequence_of_constructId [OF _ _ _ this] v(1) False show ?thesis
      by (simp add: checked_identity_def)
  qed
  then obtain n where n: "StringToBigInt s = Some n"
    "n AND 4095 = (if clk pos = - 1 then 1 else 0)"
    by blast
  have dec: "\<exists>d. deconstruct that s = Inr d \<and> d_sequence d = number_of_int (n AND 4095)"
    if "epoch that = number_of_int e" for that e
    by (simp add: deconstruct_parsed [OF n(1) that])
  from g v(3,4) r n dec same show ?thesis
    by (intro exI [of _ g] exI [of _ g'] exI [of _ n]) simp
qed

section \<open>Exhausting the sequence\<close>

lemma ids_of_append: "ids_of (rs @ rs') = ids_of rs @ ids_of rs'"
  by (induction rs rule: ids_of.induct) simp_all

lemma ids_of_map_Inr: "ids_of (map (\<lambda>x. Inr (f x)) xs) = map f xs"
  by (induction xs) simp_all

lemma ids_of_all:
  assumes "\<forall>r \<in> set rs. \<exists>s. r = Inr s"
  shows "map Inr (ids_of rs) = rs \<and> length (ids_of rs) = length rs"
  using assms by (induction rs rule: ids_of.induct) auto

lemma calls_append:
  "calls clk (m + n) this pos =
     (case calls clk m this pos of
        None \<Rightarrow> None
      | Some (rs, this', pos') \<Rightarrow>
          (case calls clk n this' pos' of
             None \<Rightarrow> None
           | Some (rs', this'', pos'') \<Rightarrow> Some (rs @ rs', this'', pos'')))"
  by (induction m arbitrary: this pos) (auto split: option.splits)

lemma calls_within_millisecond:
  assumes "lastTimestamp this = t" and "0 \<le> sequence this"
    and "sequence this + int k \<le> 4095"
    and "\<forall>i<k. clk (pos + i) = t"
  shows "calls clk k this pos
     = Some (map (\<lambda>j. constructId (this\<lparr>sequence := sequence this + 1 + int j\<rparr>) t)
               [0..<k],
             this\<lparr>sequence := sequence this + int k\<rparr>, pos + k)"
  using assms
proof (induction k arbitrary: this pos)
  case 0
  then show ?case by simp
next
  case (Suc k)
  let ?n = "this\<lparr>sequence := sequence this + 1\<rparr>"
  from Suc.prems(4) [rule_format, of 0] have here: "clk pos = t"
    by simp
  have g: "getId clk this pos = Some (constructId ?n t, ?n, Suc pos)"
    using getId_same_millisecond [of clk pos this] here Suc.prems(1,2,3) by simp
  have rest: "\<forall>i<k. clk (Suc pos + i) = t"
  proof (intro allI impI)
    fix i assume "i < k"
    then have "Suc i < Suc k" by simp
    with Suc.prems(4) have "clk (pos + Suc i) = t" by blast
    then show "clk (Suc pos + i) = t" by simp
  qed
  let ?f = "\<lambda>j. constructId (this\<lparr>sequence := sequence this + 1 + int j\<rparr>) t"
  have "calls clk k ?n (Suc pos)
     = Some (map (\<lambda>j. constructId (?n\<lparr>sequence := sequence ?n + 1 + int j\<rparr>) t)
               [0..<k],
             ?n\<lparr>sequence := sequence ?n + int k\<rparr>, Suc pos + k)"
    using Suc.prems(1,2,3) rest by (intro Suc.IH) simp_all
  then have ih: "calls clk k ?n (Suc pos)
     = Some (map (\<lambda>j. ?f (Suc j)) [0..<k],
             this\<lparr>sequence := sequence this + int (Suc k)\<rparr>, pos + Suc k)"
    by (simp add: add.assoc)
  have "calls clk (Suc k) this pos
     = Some (?f 0 # map (\<lambda>j. ?f (Suc j)) [0..<k],
             this\<lparr>sequence := sequence this + int (Suc k)\<rparr>, pos + Suc k)"
    by (simp only: calls.simps g ih option.case prod.case) simp
  also have "?f 0 # map (\<lambda>j. ?f (Suc j)) [0..<k] = map ?f [0..<Suc k]"
    by (simp only: map_upt_Suc)
  finally show ?case .
qed

lemma waitLoop_never:
  assumes "\<forall>j. clk (pos + j) \<le> lastTs" and "t \<le> lastTs"
  shows "waitLoop clk lastTs t pos = None"
proof (cases "waitLoop clk lastTs t pos")
  case None
  then show ?thesis .
next
  case (Some y)
  from waitLoop_result [OF Some]
  have y: "lastTs < fst y" "pos \<le> snd y"
    "if snd y = pos then fst y = t else fst y = clk (snd y - 1)"
    by simp_all
  show ?thesis
  proof (cases "snd y = pos")
    case True
    with y assms(2) show ?thesis by simp
  next
    case False
    with y(2) have "pos + (snd y - 1 - pos) = snd y - 1" by simp
    with assms(1) [rule_format, of "snd y - 1 - pos"] have "clk (snd y - 1) \<le> lastTs"
      by simp
    with False y show ?thesis by simp
  qed
qed

lemma mono_clock:
  assumes "\<forall>i. clk i \<le> clk (Suc i)" and "i \<le> j"
  shows "clk i \<le> (clk j :: int)"
  using lift_Suc_mono_le [of clk i j] assms by simp

lemma first_later_reading:
  assumes mono: "\<forall>i. clk i \<le> clk (Suc i)" and adv: "\<forall>i. \<exists>j. clk i < (clk j :: int)"
  shows "\<exists>k. clk pos < clk (Suc pos + k) \<and> (\<forall>j<k. clk (Suc pos + j) \<le> clk pos)"
proof -
  from adv obtain j where j: "clk pos < clk j" by blast
  have "pos < j"
  proof (rule ccontr)
    assume "\<not> pos < j"
    then have "clk j \<le> clk pos" using mono by (intro mono_clock) simp_all
    with j show False by simp
  qed
  then have ex: "clk pos < clk (Suc pos + (j - Suc pos))" using j by simp
  define k where "k = (LEAST k. clk pos < clk (Suc pos + k))"
  have "clk pos < clk (Suc pos + k)"
    unfolding k_def by (rule LeastI [of "\<lambda>k. clk pos < clk (Suc pos + k)", OF ex])
  moreover have "\<forall>j<k. clk (Suc pos + j) \<le> clk pos"
  proof (intro allI impI)
    fix i assume "i < k"
    then have "\<not> clk pos < clk (Suc pos + i)"
      unfolding k_def by (rule not_less_Least)
    then show "clk (Suc pos + i) \<le> clk pos" by simp
  qed
  ultimately show ?thesis by blast
qed

lemma getId_wrap_returns:
  assumes "lastTimestamp this = clk pos" and "sequence this = 4095"
    and "clk pos < clk (Suc pos + k)" and "\<forall>j<k. clk (Suc pos + j) \<le> clk pos"
  shows "getId clk this pos
     = Some (constructId (this\<lparr>sequence := 0, lastTimestamp := clk (Suc pos + k)\<rparr>)
               (clk (Suc pos + k)),
             this\<lparr>sequence := 0, lastTimestamp := clk (Suc pos + k)\<rparr>, Suc (Suc pos + k))"
proof -
  have "waitNextMillis clk (clk pos) (Suc pos) = Some (clk (Suc pos + k), Suc (Suc pos + k))"
    using waitLoop_first_later [OF assms(3,4)]
    by (simp add: waitNextMillis_def getCurrentTimestamp_def)
  then show ?thesis
    using assms(1,2) by (simp add: getId_wrap)
qed

lemma getId_wrap_never:
  assumes "lastTimestamp this = clk pos" and "sequence this = 4095"
    and "\<forall>j. clk (Suc pos + j) \<le> clk pos"
  shows "getId clk this pos = None"
proof -
  have "clk (Suc pos) \<le> clk pos"
    using assms(3) [rule_format, of 0] by simp
  moreover have "\<forall>j. clk (Suc (Suc pos) + j) \<le> clk pos"
  proof
    fix j from assms(3) [rule_format, of "Suc j"] have "clk (Suc pos + Suc j) \<le> clk pos" .
    then show "clk (Suc (Suc pos) + j) \<le> clk pos" by simp
  qed
  ultimately have "waitLoop clk (clk pos) (clk (Suc pos)) (Suc (Suc pos)) = None"
    by (intro waitLoop_never)
  then have "waitNextMillis clk (clk pos) (Suc pos) = None"
    by (simp add: waitNextMillis_def getCurrentTimestamp_def)
  then show ?thesis
    using assms(1,2) by (simp add: getId_wrap)
qed

text \<open>
  Under a clock that never goes back and leaves every millisecond at some time, a call on
  an instance that is not ahead of the clock returns, and what it returns or throws is
  what packing the id of the reading it took returns or throws.
\<close>

lemma getId_returns:
  assumes vs: "valid_sequence this" and le: "lastTimestamp this \<le> clk pos"
    and mono: "\<forall>i. clk i \<le> clk (Suc i)" and adv: "\<forall>i. \<exists>j. clk i < clk j"
  shows "\<exists>this' pos'. getId clk this pos
       = Some (constructId this' (clk (pos' - 1)), this', pos')
     \<and> lastTimestamp this' \<le> clk pos' \<and> pos < pos'"
proof -
  have "lastTimestamp this < clk pos
      \<or> (clk pos = lastTimestamp this \<and> sequence this < 4095)
      \<or> (clk pos = lastTimestamp this \<and> sequence this = 4095)"
    using vs le by (auto simp: valid_sequence_def)
  then consider (new) "lastTimestamp this < clk pos"
    | (same) "clk pos = lastTimestamp this" "sequence this < 4095"
    | (wrap) "clk pos = lastTimestamp this" "sequence this = 4095"
    by blast
  then show ?thesis
  proof cases
    case new
    from getId_new_millisecond [of this clk pos, OF new] mono show ?thesis
      by simp
  next
    case same
    from vs have "0 \<le> sequence this" by (simp add: valid_sequence_def)
    from getId_same_millisecond [of clk pos this, OF same(1) this same(2)] mono same(1)
    show ?thesis
      by (simp del: One_nat_def) (metis order_refl)
  next
    case wrap
    from first_later_reading [OF mono adv, of pos] obtain k where
      k: "clk pos < clk (Suc pos + k)" "\<forall>j<k. clk (Suc pos + j) \<le> clk pos"
      by blast
    from getId_wrap_returns [of this clk pos k, OF wrap(1) [symmetric] wrap(2) k] mono
    show ?thesis
      by simp
  qed
qed

lemma calls_return:
  assumes "valid_sequence this" and "lastTimestamp this \<le> clk pos"
    and mono: "\<forall>i. clk i \<le> clk (Suc i)" and adv: "\<forall>i. \<exists>j. clk i < clk j"
  shows "\<exists>rs this' pos'. calls clk n this pos = Some (rs, this', pos')
     \<and> length rs = n \<and> pos \<le> pos'
     \<and> (\<forall>r \<in> set rs. \<exists>j that. pos \<le> j \<and> j < pos'
           \<and> workerId that = workerId this \<and> processId that = processId this
           \<and> epoch that = epoch this \<and> r = constructId that (clk j))"
  using assms(1,2)
proof (induction n arbitrary: this pos)
  case 0
  then show ?case by simp
next
  case (Suc n)
  from getId_returns [OF Suc.prems mono adv] obtain this1 pos1 where
    g: "getId clk this pos = Some (constructId this1 (clk (pos1 - 1)), this1, pos1)"
    and le: "lastTimestamp this1 \<le> clk pos1" and pos: "pos < pos1"
    by blast
  from getId_step [OF Suc.prems(1) g] have v1: "valid_sequence this1"
    and same: "workerId this1 = workerId this" "processId this1 = processId this"
      "epoch this1 = epoch this"
    by simp_all
  from Suc.IH [OF v1 le] obtain rs this' pos' where
    c: "calls clk n this1 pos1 = Some (rs, this', pos')" and len: "length rs = n"
    and pos': "pos1 \<le> pos'"
    and rs: "\<forall>r \<in> set rs. \<exists>j that. pos1 \<le> j \<and> j < pos'
           \<and> workerId that = workerId this1 \<and> processId that = processId this1
           \<and> epoch that = epoch this1 \<and> r = constructId that (clk j)"
    by blast
  let ?Q = "\<lambda>r. \<exists>j that. pos \<le> j \<and> j < pos'
           \<and> workerId that = workerId this \<and> processId that = processId this
           \<and> epoch that = epoch this \<and> r = constructId that (clk j)"
  have "pos \<le> pos1 - 1" "pos1 - 1 < pos'"
    using pos pos' by arith+
  with same have first: "?Q (constructId this1 (clk (pos1 - 1)))"
    by blast
  have rest: "?Q r" if "r \<in> set rs" for r
  proof -
    from rs that obtain j that' where "pos1 \<le> j" "j < pos'"
      "workerId that' = workerId this1" "processId that' = processId this1"
      "epoch that' = epoch this1" "r = constructId that' (clk j)"
      by blast
    moreover from \<open>pos1 \<le> j\<close> pos have "pos \<le> j" by simp
    ultimately show ?thesis
      unfolding same by blast
  qed
  have "calls clk (Suc n) this pos
      = Some (constructId this1 (clk (pos1 - 1)) # rs, this', pos')"
    by (simp add: g c)
  moreover have "\<forall>r \<in> set (constructId this1 (clk (pos1 - 1)) # rs). ?Q r"
    using first rest by simp
  moreover have "pos \<le> pos'"
    using pos pos' by simp
  ultimately show ?case
    using len by (intro exI [of _ "constructId this1 (clk (pos1 - 1)) # rs"]
        exI [of _ this'] exI [of _ pos']) simp
qed

text \<open>Under a clock that advances at every reading, every call takes one reading.\<close>

lemma calls_advancing:
  assumes "\<forall>i. pos \<le> i \<longrightarrow> clk i < clk (Suc i)" and "lastTimestamp this < clk pos"
  shows "\<exists>rs this'. calls clk n this pos = Some (rs, this', pos + n) \<and> length rs = n"
  using assms
proof (induction n arbitrary: this pos)
  case 0
  then show ?case by simp
next
  case (Suc n)
  let ?n = "this\<lparr>sequence := 0, lastTimestamp := clk pos\<rparr>"
  note g = getId_new_millisecond [of this clk pos, OF Suc.prems(2)]
  have "\<forall>i. Suc pos \<le> i \<longrightarrow> clk i < clk (Suc i)"
    using Suc.prems(1) by simp
  moreover have "lastTimestamp ?n < clk (Suc pos)"
    using Suc.prems(1) [rule_format, of pos] by simp
  ultimately obtain rs this' where
    "calls clk n ?n (Suc pos) = Some (rs, this', Suc pos + n)" "length rs = n"
    using Suc.IH [of "Suc pos" ?n] by blast
  with g show ?case by simp
qed

lemma strictly_sorted_gap:
  fixes ns :: "int list"
  assumes "sorted_wrt (<) ns" and "ns \<noteq> []"
  shows "hd ns + int (length ns) - 1 \<le> last ns"
  using assms
proof (induction ns)
  case Nil
  then show ?case by simp
next
  case (Cons a ns)
  show ?case
  proof (cases ns)
    case Nil
    then show ?thesis by simp
  next
    case (Cons b bs)
    with Cons.prems have "a < hd ns" "sorted_wrt (<) ns" "ns \<noteq> []" by auto
    with Cons.IH show ?thesis by simp
  qed
qed

lemma buckets_differ:
  fixes ns :: "int list"
  assumes sorted: "sorted_wrt (<) ns" and many: "4096 < length ns"
    and form: "\<forall>v \<in> set ns. \<exists>a s. 0 \<le> s \<and> s \<le> 4095 \<and> v = packId a w p s"
    and w: "0 \<le> w" "w \<le> 31" and p: "0 \<le> p" "p \<le> 31"
  shows "drop_bit 22 (hd ns) < drop_bit 22 (last ns)"
proof -
  from many have ne: "ns \<noteq> []" by auto
  from strictly_sorted_gap [OF sorted ne] many have gap: "hd ns + 4096 \<le> last ns"
    by simp
  from ne form obtain a s where h: "0 \<le> s" "s \<le> 4095" "hd ns = packId a w p s"
    by (metis hd_in_set)
  from ne form obtain b r where l: "0 \<le> r" "r \<le> 4095" "last ns = packId b w p r"
    by (metis last_in_set)
  have da: "drop_bit 22 (hd ns) = a" and db: "drop_bit 22 (last ns) = b"
    using h l w p by (simp_all add: packId_fields)
  have "a < b"
  proof (rule ccontr)
    assume "\<not> a < b"
    then have "b \<le> a" by simp
    then have "packId b w p r \<le> packId a w p s + 4095"
      using h l w p by (simp add: packId_sum)
    with gap h l show False by simp
  qed
  with da db show ?thesis by simp
qed

lemma update_order:
  "this\<lparr>lastTimestamp := t, sequence := x\<rparr> = this\<lparr>sequence := x, lastTimestamp := t\<rparr>"
  by (cases this) simp

lemma calls_new_millisecond:
  assumes new: "lastTimestamp this < t" and frozen: "\<forall>i<Suc k. clk (pos + i) = t"
    and k: "int k \<le> 4095"
  shows "calls clk (Suc k) this pos
     = Some (map (\<lambda>j. constructId (this\<lparr>sequence := int j, lastTimestamp := t\<rparr>) t)
               [0..<Suc k],
             this\<lparr>sequence := int k, lastTimestamp := t\<rparr>, pos + Suc k)"
proof -
  let ?n = "this\<lparr>sequence := 0, lastTimestamp := t\<rparr>"
  let ?f = "\<lambda>j. constructId (this\<lparr>sequence := int j, lastTimestamp := t\<rparr>) t"
  from frozen [rule_format, of 0] have here: "clk pos = t" by simp
  have g: "getId clk this pos = Some (?f 0, ?n, Suc pos)"
    using getId_new_millisecond [of this clk pos] new here by simp
  have rest: "\<forall>i<k. clk (Suc pos + i) = t"
  proof (intro allI impI)
    fix i assume "i < k"
    then have "Suc i < Suc k" by simp
    from frozen [rule_format, OF this] show "clk (Suc pos + i) = t" by simp
  qed
  have "calls clk k ?n (Suc pos)
     = Some (map (\<lambda>j. constructId (?n\<lparr>sequence := sequence ?n + 1 + int j\<rparr>) t)
               [0..<k],
             ?n\<lparr>sequence := sequence ?n + int k\<rparr>, Suc pos + k)"
    using k rest by (intro calls_within_millisecond) simp_all
  then have c: "calls clk k ?n (Suc pos)
     = Some (map (\<lambda>j. ?f (Suc j)) [0..<k],
             this\<lparr>sequence := int k, lastTimestamp := t\<rparr>, pos + Suc k)"
    by (simp add: add.commute update_order)
  have "calls clk (Suc k) this pos
     = Some (?f 0 # map (\<lambda>j. ?f (Suc j)) [0..<k],
             this\<lparr>sequence := int k, lastTimestamp := t\<rparr>, pos + Suc k)"
    by (simp only: calls.simps g c option.case prod.case)
  also have "?f 0 # map (\<lambda>j. ?f (Suc j)) [0..<k] = map ?f [0..<Suc k]"
    by (simp only: map_upt_Suc)
  finally show ?thesis .
qed

text \<open>
  In the millisecond -1 an instance the constructor returned issues 4095 ids, of
  sequences 1 to 4095: its first call there is taken for one in the same millisecond as
  a call before it.
\<close>

lemma calls_sentinel_millisecond:
  assumes "new_SnowflakeGenerator opts = Inr this" and "\<forall>i<4095. clk (pos + i) = - 1"
  shows "calls clk 4095 this pos
     = Some (map (\<lambda>j. constructId (this\<lparr>sequence := 1 + int j\<rparr>) (- 1)) [0..<4095],
             this\<lparr>sequence := 4095\<rparr>, pos + 4095)"
  using calls_within_millisecond [of this "- 1" 4095 clk pos] new_valid(3,4) [OF assms(1)]
    assms(2)
  by simp

text \<open>
  C6, as stated, fails when the differences of the readings from the epoch are not
  computed exactly. The constructor accepts the epoch -9007199254740991; the differences
  of the readings 1760000000000 and 1760000000001 from it are both rounded to
  9008959254740992. With the clock at 1760000000000 for 4097 readings and advancing by one
  millisecond at every later reading, the first 4096 calls return the ids of that
  timestamp field with sequences 0 to 4095, the next call waits for the millisecond
  1760000000001 and returns the id of the same timestamp field with sequence 0, the id
  that the first call returned; so the ids of 5000 calls are not pairwise distinct.
\<close>

theorem sequence_exhaustion_rounded_offset_counterexample:
  "new_SnowflakeGenerator
     (Some \<lparr> opt_workerId = None, opt_processId = None,
             opt_epoch = Some (number_of_int (- 9007199254740991)) \<rparr>)
     = Inr \<lparr> workerId = number_of_int 1, processId = number_of_int 1,
             epoch = number_of_int (- 9007199254740991), sequence = 0,
             lastTimestamp = - 1 \<rparr>
   \<and> calls (\<lambda>i. 1760000000000 + int (i - 4096)) 4096
       \<lparr> workerId = number_of_int 1, processId = number_of_int 1,
         epoch = number_of_int (- 9007199254740991), sequence = 0, lastTimestamp = - 1 \<rparr> 0
     = Some (map (\<lambda>j. Inr (BigInt_toString (packId 9008959254740992 1 1 (int j))))
               [0..<4096],
             \<lparr> workerId = number_of_int 1, processId = number_of_int 1,
               epoch = number_of_int (- 9007199254740991), sequence = 4095,
               lastTimestamp = 1760000000000 \<rparr>, 4096)
   \<and> getId (\<lambda>i. 1760000000000 + int (i - 4096))
       \<lparr> workerId = number_of_int 1, processId = number_of_int 1,
         epoch = number_of_int (- 9007199254740991), sequence = 4095,
         lastTimestamp = 1760000000000 \<rparr> 4096
     = Some (Inr (BigInt_toString (packId 9008959254740992 1 1 0)),
             \<lparr> workerId = number_of_int 1, processId = number_of_int 1,
               epoch = number_of_int (- 9007199254740991), sequence = 0,
               lastTimestamp = 1760000000001 \<rparr>, 4098)
   \<and> (\<exists>rs this' pos'.
        calls (\<lambda>i. 1760000000000 + int (i - 4096)) 5000
          \<lparr> workerId = number_of_int 1, processId = number_of_int 1,
            epoch = number_of_int (- 9007199254740991), sequence = 0,
            lastTimestamp = - 1 \<rparr> 0 = Some (rs, this', pos')
        \<and> \<not> distinct (ids_of rs))"
proof -
  let ?clk = "\<lambda>i::nat. 1760000000000 + int (i - 4096)"
  let ?g = "\<lparr> workerId = number_of_int 1, processId = number_of_int 1,
              epoch = number_of_int (- 9007199254740991), sequence = 0,
              lastTimestamp = - 1 \<rparr>"
  let ?h = "\<lparr> workerId = number_of_int 1, processId = number_of_int 1,
              epoch = number_of_int (- 9007199254740991), sequence = 4095,
              lastTimestamp = 1760000000000 \<rparr>"
  let ?h' = "\<lparr> workerId = number_of_int 1, processId = number_of_int 1,
               epoch = number_of_int (- 9007199254740991), sequence = 0,
               lastTimestamp = 1760000000001 \<rparr>"
  let ?id = "\<lambda>j. BigInt_toString (packId 9008959254740992 1 1 (int j))"
  have new: "new_SnowflakeGenerator
     (Some \<lparr> opt_workerId = None, opt_processId = None,
             opt_epoch = Some (number_of_int (- 9007199254740991)) \<rparr>) = Inr ?g"
    by (simp add: new_SnowflakeGenerator_cases or_else_nullish_def or_else_falsy_def
        opt_field_def falsy_def number_of_int_def number_less_def MAX_values)
  have b: "bit_length 9008959254740991 = Suc 53" "bit_length 9008959254740992 = Suc 53"
    by (rule bit_length_between, simp, simp)+
  have f: "\<lfloor>(9008959254740991 :: rat) / 2\<rfloor> = 4504479627370495"
    by (simp add: floor_eq_iff)
  have r0: "round_to_double 9008959254740991 = Finite 9008959254740992"
    by (simp add: round_to_double_def binary_exponent_def b pow2_def
        round_half_even_def Let_def f)
  have r1: "round_to_double 9008959254740992 = Finite 9008959254740992"
    by (simp add: round_to_double_def binary_exponent_def b pow2_def
        round_half_even_def Let_def)
  have o0: "offset this 1760000000000 = number_of_int 9008959254740992"
    if "epoch this = number_of_int (- 9007199254740991)" for this
    using that r0 by (simp add: offset_def number_minus_def number_of_int_def)
  have o1: "offset this 1760000000001 = number_of_int 9008959254740992"
    if "epoch this = number_of_int (- 9007199254740991)" for this
    using that r1 by (simp add: offset_def number_minus_def number_of_int_def)
  have c0: "constructId (?g\<lparr>sequence := s, lastTimestamp := l\<rparr>) 1760000000000
      = Inr (BigInt_toString (packId 9008959254740992 1 1 s))" for s l
    by (simp add: constructId_eq o0 id_of_def)
  have c1: "constructId ?h' 1760000000001
      = Inr (BigInt_toString (packId 9008959254740992 1 1 0))"
    by (simp add: constructId_eq o1 id_of_def)
  have e: "Suc 4095 = 4096" by simp
  have "\<forall>i<Suc 4095. ?clk (0 + i) = 1760000000000"
    by simp
  then have "calls ?clk (Suc 4095) ?g 0
     = Some (map (\<lambda>j. constructId (?g\<lparr>sequence := int j, lastTimestamp := 1760000000000\<rparr>)
                   1760000000000) [0..<Suc 4095],
             ?g\<lparr>sequence := int 4095, lastTimestamp := 1760000000000\<rparr>, 0 + Suc 4095)"
    by (intro calls_new_millisecond) simp_all
  then have A: "calls ?clk 4096 ?g 0 = Some (map (\<lambda>j. Inr (?id j)) [0..<4096], ?h, 4096)"
    by (simp only: e c0) simp
  have "getId ?clk ?h 4096
     = Some (constructId (?h\<lparr>sequence := 0, lastTimestamp := ?clk (Suc 4096 + 0)\<rparr>)
               (?clk (Suc 4096 + 0)),
             ?h\<lparr>sequence := 0, lastTimestamp := ?clk (Suc 4096 + 0)\<rparr>, Suc (Suc 4096 + 0))"
    by (intro getId_wrap_returns) simp_all
  then have B: "getId ?clk ?h 4096 = Some (Inr (?id 0), ?h', 4098)"
    using c1 by simp
  have B': "calls ?clk 1 ?h 4096 = Some ([Inr (?id 0)], ?h', 4098)"
    by (simp add: B)
  have "\<forall>i. 4098 \<le> i \<longrightarrow> ?clk i < ?clk (Suc i)"
    by auto
  moreover have "lastTimestamp ?h' < ?clk 4098"
    by simp
  ultimately obtain rs this' where
    C: "calls ?clk 903 ?h' 4098 = Some (rs, this', 4098 + 903)"
    using calls_advancing [of 4098 ?clk ?h' 903] by blast
  have "calls ?clk (4096 + (1 + 903)) ?g 0
      = Some (map (\<lambda>j. Inr (?id j)) [0..<4096] @ [Inr (?id 0)] @ rs, this', 4098 + 903)"
    by (simp only: calls_append [of ?clk 4096] calls_append [of ?clk 1] A B' C
        option.case prod.case)
  then have run: "calls ?clk 5000 ?g 0
      = Some (map (\<lambda>j. Inr (?id j)) [0..<4096] @ [Inr (?id 0)] @ rs, this', 4098 + 903)"
    by simp
  have "(0::nat) \<in> set [0..<4096]"
    by simp
  then have "?id 0 \<in> ?id ` set [0..<4096]"
    by (rule imageI)
  then have "?id 0 \<in> set (map ?id [0..<4096])"
    by (simp only: set_map)
  then have "\<not> distinct (ids_of (map (\<lambda>j. Inr (?id j)) [0..<4096] @ [Inr (?id 0)] @ rs))"
    by (simp only: ids_of_append ids_of_map_Inr distinct_append) simp
  with run have D: "\<exists>rs this' pos'. calls ?clk 5000 ?g 0 = Some (rs, this', pos')
      \<and> \<not> distinct (ids_of rs)"
    by blast
  from B have B2: "getId ?clk ?h 4096
      = Some (Inr (BigInt_toString (packId 9008959254740992 1 1 0)), ?h', 4098)"
    by simp
  from new A B2 D show ?thesis
    by (intro conjI)
qed

text \<open>
  C6, amended. On an instance whose worker id and process id are integers in 0..31 and
  whose epoch is an integer, as long as the readings taken differ from the epoch by at
  most \<open>2^53\<close>, so that the differences are computed exactly:
  \<^item> 4096 calls in a row that all read the millisecond \<open>t\<close>, later than
    \<open>lastTimestamp\<close>, return the 4096 ids of timestamp \<open>t\<close> and sequences 0 to 4095,
    in this order, and leave the sequence at 4095;
  \<^item> a call that reads \<open>lastTimestamp\<close> again when the sequence is 4095 reads the clock
    until the first reading above \<open>lastTimestamp\<close> and returns the id of that reading
    with sequence 0: its timestamp field is strictly larger than the one of the ids of
    \<open>lastTimestamp\<close>;
  \<^item> when no later reading is above \<open>lastTimestamp\<close>, that call never returns;
  \<^item> under a clock that never goes back and leaves every millisecond at some time
    (frozen, then advancing), 5000 calls in a row all return, and what they return are
    5000 ids, strictly increasing, pairwise distinct, the last in a later millisecond
    than the first.
\<close>

theorem sequence_exhaustion:
  assumes vi: "valid_identity this" and ep: "epoch this = number_of_int e"
  shows "(lastTimestamp this < t \<and> (\<forall>i<4096. clk (pos + i) = t) \<and> \<bar>t - e\<bar> \<le> 2 ^ 53 \<longrightarrow>
       calls clk 4096 this pos
         = Some (map (\<lambda>j. Inr (BigInt_toString
                     (packId (t - e) (int_of (workerId this)) (int_of (processId this))
                        (int j))))
                   [0..<4096],
                 this\<lparr>sequence := 4095, lastTimestamp := t\<rparr>, pos + 4096))
   \<and> (lastTimestamp this = clk pos \<and> sequence this = 4095
        \<and> clk pos < clk (Suc pos + k) \<and> (\<forall>j<k. clk (Suc pos + j) \<le> clk pos)
        \<and> \<bar>clk pos - e\<bar> \<le> 2 ^ 53 \<and> \<bar>clk (Suc pos + k) - e\<bar> \<le> 2 ^ 53 \<longrightarrow>
       (\<exists>n. getId clk this pos
           = Some (Inr (BigInt_toString n),
                   this\<lparr>sequence := 0, lastTimestamp := clk (Suc pos + k)\<rparr>,
                   Suc (Suc pos + k))
         \<and> n = packId (clk (Suc pos + k) - e) (int_of (workerId this))
                 (int_of (processId this)) 0
         \<and> drop_bit 22 n = clk (Suc pos + k) - e
         \<and> int_of (offset this (lastTimestamp this)) < drop_bit 22 n
         \<and> n AND 4095 = 0))
   \<and> (lastTimestamp this = clk pos \<and> sequence this = 4095
        \<and> (\<forall>j. clk (Suc pos + j) \<le> clk pos) \<longrightarrow>
       getId clk this pos = None)
   \<and> (valid_sequence this \<and> lastTimestamp this \<le> clk pos
        \<and> (\<forall>i. clk i \<le> clk (Suc i)) \<and> (\<forall>i. \<exists>j. clk i < clk j) \<longrightarrow>
       (\<exists>rs this' pos'.
          calls clk 5000 this pos = Some (rs, this', pos') \<and> length rs = 5000
          \<and> ((\<forall>i. pos \<le> i \<and> i < pos' \<longrightarrow> \<bar>clk i - e\<bar> \<le> 2 ^ 53) \<longrightarrow>
               (\<exists>ns. rs = map (\<lambda>v. Inr (BigInt_toString v)) ns
                  \<and> length ns = 5000 \<and> sorted_wrt (<) ns
                  \<and> distinct (map BigInt_toString ns)
                  \<and> drop_bit 22 (hd ns) < drop_bit 22 (last ns)))))"
proof (intro conjI impI)
  let ?w = "int_of (workerId this)" and ?p = "int_of (processId this)"
  from vi have w: "workerId this = number_of_int ?w" and p: "processId this = number_of_int ?p"
    and range: "0 \<le> ?w" "?w \<le> 31" "0 \<le> ?p" "?p \<le> 31"
    by (simp_all add: valid_identity_def integral_eq [symmetric])
  have packed: "constructId that u = Inr (BigInt_toString (packId (u - e) ?w ?p (sequence that)))"
    if "workerId that = workerId this" "processId that = processId this"
      "epoch that = epoch this" "\<bar>u - e\<bar> \<le> 2 ^ 53" for that u
    using that w p ep by (intro constructId_integers) simp_all
  {
    assume a: "lastTimestamp this < t \<and> (\<forall>i<4096. clk (pos + i) = t) \<and> \<bar>t - e\<bar> \<le> 2 ^ 53"
    have e: "Suc 4095 = 4096" by simp
    have c: "constructId (this\<lparr>sequence := s, lastTimestamp := l\<rparr>) t
        = Inr (BigInt_toString (packId (t - e) ?w ?p s))" for s l
      using packed [of "this\<lparr>sequence := s, lastTimestamp := l\<rparr>" t] a by simp
    from a have "\<forall>i<Suc 4095. clk (pos + i) = t" unfolding e by blast
    with a have "calls clk (Suc 4095) this pos
       = Some (map (\<lambda>j. constructId (this\<lparr>sequence := int j, lastTimestamp := t\<rparr>) t)
                 [0..<Suc 4095],
               this\<lparr>sequence := int 4095, lastTimestamp := t\<rparr>, pos + Suc 4095)"
      by (intro calls_new_millisecond) simp_all
    then show "calls clk 4096 this pos
           = Some (map (\<lambda>j. Inr (BigInt_toString (packId (t - e) ?w ?p (int j))))
                     [0..<4096],
                   this\<lparr>sequence := 4095, lastTimestamp := t\<rparr>, pos + 4096)"
      by (simp only: e c) simp
  }
  {
    assume b: "lastTimestamp this = clk pos \<and> sequence this = 4095
          \<and> clk pos < clk (Suc pos + k) \<and> (\<forall>j<k. clk (Suc pos + j) \<le> clk pos)
          \<and> \<bar>clk pos - e\<bar> \<le> 2 ^ 53 \<and> \<bar>clk (Suc pos + k) - e\<bar> \<le> 2 ^ 53"
    let ?t = "clk (Suc pos + k)"
    let ?n = "packId (?t - e) ?w ?p 0"
    from b have "getId clk this pos
       = Some (constructId (this\<lparr>sequence := 0, lastTimestamp := ?t\<rparr>) ?t,
               this\<lparr>sequence := 0, lastTimestamp := ?t\<rparr>, Suc (Suc pos + k))"
      by (intro getId_wrap_returns) simp_all
    moreover have "constructId (this\<lparr>sequence := 0, lastTimestamp := ?t\<rparr>) ?t
        = Inr (BigInt_toString ?n)"
      using packed [of "this\<lparr>sequence := 0, lastTimestamp := ?t\<rparr>" ?t] b by simp
    ultimately have 1: "getId clk this pos
       = Some (Inr (BigInt_toString ?n),
               this\<lparr>sequence := 0, lastTimestamp := ?t\<rparr>, Suc (Suc pos + k))"
      by simp
    have 2: "drop_bit 22 ?n = ?t - e" "?n AND 4095 = 0"
      using range by (simp_all add: packId_fields)
    have "offset this (lastTimestamp this) = number_of_int (clk pos - e)"
      using offset_exact [OF ep, of "clk pos"] b by simp
    then have 3: "int_of (offset this (lastTimestamp this)) < ?t - e"
      using b by simp
    from 1 2 3 show "\<exists>n. getId clk this pos
             = Some (Inr (BigInt_toString n),
                     this\<lparr>sequence := 0, lastTimestamp := clk (Suc pos + k)\<rparr>,
                     Suc (Suc pos + k))
           \<and> n = packId (clk (Suc pos + k) - e) ?w ?p 0
           \<and> drop_bit 22 n = clk (Suc pos + k) - e
           \<and> int_of (offset this (lastTimestamp this)) < drop_bit 22 n
           \<and> n AND 4095 = 0"
      by (intro exI [of _ ?n]) simp
  }
  {
    assume "lastTimestamp this = clk pos \<and> sequence this = 4095
          \<and> (\<forall>j. clk (Suc pos + j) \<le> clk pos)"
    then show "getId clk this pos = None"
      by (intro getId_wrap_never) simp_all
  }
  {
    assume d: "valid_sequence this \<and> lastTimestamp this \<le> clk pos
          \<and> (\<forall>i. clk i \<le> clk (Suc i)) \<and> (\<forall>i. \<exists>j. clk i < clk j)"
    then have vs: "valid_sequence this" and le: "lastTimestamp this \<le> clk pos"
      and mono: "\<forall>i. clk i \<le> clk (Suc i)" and adv: "\<forall>i. \<exists>j. clk i < clk j"
      by simp_all
    from calls_return [OF vs le mono adv, of 5000] obtain rs this' pos' where
      c: "calls clk 5000 this pos = Some (rs, this', pos')"
      and len: "length rs = 5000"
      and each: "\<forall>r \<in> set rs. \<exists>j that. pos \<le> j \<and> j < pos'
           \<and> workerId that = workerId this \<and> processId that = processId this
           \<and> epoch that = epoch this \<and> r = constructId that (clk j)"
      by blast
    have "\<exists>ns. rs = map (\<lambda>v. Inr (BigInt_toString v)) ns
           \<and> length ns = 5000 \<and> sorted_wrt (<) ns
           \<and> distinct (map BigInt_toString ns)
           \<and> drop_bit 22 (hd ns) < drop_bit 22 (last ns)"
      if bound: "\<forall>i. pos \<le> i \<and> i < pos' \<longrightarrow> \<bar>clk i - e\<bar> \<le> 2 ^ 53"
    proof -
      have "\<exists>s. r = Inr s" if "r \<in> set rs" for r
      proof -
        from each that obtain j that' where j: "pos \<le> j" "j < pos'"
          and same: "workerId that' = workerId this" "processId that' = processId this"
            "epoch that' = epoch this"
          and r: "r = constructId that' (clk j)"
          by blast
        from bound j have "\<bar>clk j - e\<bar> \<le> 2 ^ 53" by blast
        from packed [OF same this] r show ?thesis by simp
      qed
      then have "\<forall>r \<in> set rs. \<exists>s. r = Inr s" by blast
      from ids_of_all [OF this] have all: "map Inr (ids_of rs) = rs"
        and l: "length (ids_of rs) = 5000"
        using len by simp_all
      from calls_keys [OF vs c] obtain ks where
        ids: "ids_of rs = map (\<lambda>k. BigInt_toString (id_of this k)) ks"
        and sorted: "sorted_wrt key_less ks"
        and ks: "\<forall>k \<in> set ks. 0 \<le> snd k \<and> snd k \<le> 4095
            \<and> (\<exists>j. pos \<le> j \<and> j < pos' \<and> fst k = clk j)"
        by blast
      define ns where "ns = map (id_of this) ks"
      have exact: "int_of (offset this (fst k)) = fst k - e" if "k \<in> set ks" for k
      proof -
        from ks that obtain j where "pos \<le> j" "j < pos'" "fst k = clk j" by blast
        with bound have "\<bar>fst k - e\<bar> \<le> 2 ^ 53" by simp
        from offset_exact [OF ep this] show ?thesis by simp
      qed
      have less: "id_of this k < id_of this l"
        if "k \<in> set ks" "l \<in> set ks" "key_less k l" for k l
      proof (rule id_of_less [OF vi _ _ _ _ that(3)])
        show "0 \<le> snd k" "snd k \<le> 4095" "0 \<le> snd l" "snd l \<le> 4095"
          using ks that by blast+
        assume "fst k < fst l"
        then show "int_of (offset this (fst k)) < int_of (offset this (fst l))"
          by (simp add: exact [OF that(1)] exact [OF that(2)])
      qed
      have sorted_ns: "sorted_wrt (<) ns"
        unfolding ns_def sorted_wrt_map
        by (rule sorted_wrt_mono_rel [OF _ sorted]) (rule less)
      have idn: "ids_of rs = map BigInt_toString ns"
        by (simp add: ids ns_def comp_def)
      with l have ln: "length ns = 5000" by simp
      have "distinct ns"
        using sorted_ns by (simp add: strict_sorted_iff)
      then have dist: "distinct (map BigInt_toString ns)"
        by (simp add: distinct_map inj_on_subset [OF BigInt_toString_inj])
      have form: "\<forall>v \<in> set ns. \<exists>a s. 0 \<le> s \<and> s \<le> 4095 \<and> v = packId a ?w ?p s"
      proof
        fix v assume "v \<in> set ns"
        then obtain k where "k \<in> set ks" "v = id_of this k"
          by (auto simp: ns_def)
        with ks show "\<exists>a s. 0 \<le> s \<and> s \<le> 4095 \<and> v = packId a ?w ?p s"
          unfolding id_of_def by blast
      qed
      have "drop_bit 22 (hd ns) < drop_bit 22 (last ns)"
        using range ln by (intro buckets_differ [OF sorted_ns _ form]) simp_all
      moreover have "rs = map (\<lambda>v. Inr (BigInt_toString v)) ns"
        using all idn by (simp add: comp_def)
      ultimately show ?thesis
        using ln sorted_ns dist by blast
    qed
    with c len show "\<exists>rs this' pos'.
          calls clk 5000 this pos = Some (rs, this', pos') \<and> length rs = 5000
          \<and> ((\<forall>i. pos \<le> i \<and> i < pos' \<longrightarrow> \<bar>clk i - e\<bar> \<le> 2 ^ 53) \<longrightarrow>
               (\<exists>ns. rs = map (\<lambda>v. Inr (BigInt_toString v)) ns
                  \<and> length ns = 5000 \<and> sorted_wrt (<) ns
                  \<and> distinct (map BigInt_toString ns)
                  \<and> drop_bit 22 (hd ns) < drop_bit 22 (last ns)))"
      by blast
  }
qed

theorem sequence_exhaustion_witness:
  "calls (\<lambda>i. 1733011201000 + int (i - 4999)) 4096
      \<lparr> workerId = number_of_int 1, processId = number_of_int 1,
        epoch = number_of_int 1733011200000, sequence = 0, lastTimestamp = - 1 \<rparr> 0
     = Some (map (\<lambda>j. Inr (BigInt_toString (packId 1000 1 1 (int j)))) [0..<4096],
             \<lparr> workerId = number_of_int 1, processId = number_of_int 1,
               epoch = number_of_int 1733011200000, sequence = 4095,
               lastTimestamp = 1733011201000 \<rparr>, 4096)
   \<and> getId (\<lambda>i. 1733011201000 + int (i - 4999))
      \<lparr> workerId = number_of_int 1, processId = number_of_int 1,
        epoch = number_of_int 1733011200000, sequence = 4095,
        lastTimestamp = 1733011201000 \<rparr> 4096
     = Some (Inr (BigInt_toString (packId 1001 1 1 0)),
             \<lparr> workerId = number_of_int 1, processId = number_of_int 1,
               epoch = number_of_int 1733011200000, sequence = 0,
               lastTimestamp = 1733011201001 \<rparr>, 5001)
   \<and> getId (\<lambda>i. 1733011201000)
      \<lparr> workerId = number_of_int 1, processId = number_of_int 1,
        epoch = number_of_int 1733011200000, sequence = 4095,
        lastTimestamp = 1733011201000 \<rparr> 0 = None
   \<and> (\<exists>ns this'.
         calls (\<lambda>i. 1733011201000 + int (i - 4999)) 5000
           \<lparr> workerId = number_of_int 1, processId = number_of_int 1,
             epoch = number_of_int 1733011200000, sequence = 0, lastTimestamp = - 1 \<rparr> 0
           = Some (map (\<lambda>v. Inr (BigInt_toString v)) ns, this', 5904)
         \<and> length ns = 5000 \<and> sorted_wrt (<) ns
         \<and> distinct (map BigInt_toString ns)
         \<and> drop_bit 22 (hd ns) < drop_bit 22 (last ns))"
proof -
  let ?clk = "\<lambda>i::nat. 1733011201000 + int (i - 4999)"
  let ?frozen = "\<lambda>i::nat. 1733011201000 :: int"
  let ?g = "\<lparr> workerId = number_of_int 1, processId = number_of_int 1,
              epoch = number_of_int 1733011200000, sequence = 0, lastTimestamp = - 1 \<rparr>"
  let ?h = "\<lparr> workerId = number_of_int 1, processId = number_of_int 1,
              epoch = number_of_int 1733011200000, sequence = 4095,
              lastTimestamp = 1733011201000 \<rparr>"
  let ?h' = "\<lparr> workerId = number_of_int 1, processId = number_of_int 1,
               epoch = number_of_int 1733011200000, sequence = 0,
               lastTimestamp = 1733011201001 \<rparr>"
  have vg: "valid_identity ?g" and vh: "valid_identity ?h"
    by (simp_all add: valid_identity_def)
  have eg: "epoch ?g = number_of_int 1733011200000"
    and eh: "epoch ?h = number_of_int 1733011200000"
    by simp_all
  have a: "lastTimestamp ?g < 1733011201000 \<and> (\<forall>i<4096. ?clk (0 + i) = 1733011201000)
      \<and> \<bar>1733011201000 - 1733011200000\<bar> \<le> (2 ^ 53 :: int)"
    by simp
  have b: "lastTimestamp ?h = ?clk 4096 \<and> sequence ?h = 4095
      \<and> ?clk 4096 < ?clk (Suc 4096 + 903) \<and> (\<forall>j<903. ?clk (Suc 4096 + j) \<le> ?clk 4096)
      \<and> \<bar>?clk 4096 - 1733011200000\<bar> \<le> 2 ^ 53
      \<and> \<bar>?clk (Suc 4096 + 903) - 1733011200000\<bar> \<le> 2 ^ 53"
    by simp
  have c: "lastTimestamp ?h = ?frozen 0 \<and> sequence ?h = 4095
      \<and> (\<forall>j. ?frozen (Suc 0 + j) \<le> ?frozen 0)"
    by simp
  have adv: "\<forall>i. \<exists>j. ?clk i < ?clk j"
  proof
    fix i show "\<exists>j. ?clk i < ?clk j"
      by (rule exI [of _ "i + 5000"]) simp
  qed
  have mono: "\<forall>i. ?clk i \<le> ?clk (Suc i)"
  proof
    fix i
    have "i - 4999 \<le> Suc i - 4999" by arith
    then show "?clk i \<le> ?clk (Suc i)" by linarith
  qed
  have d: "valid_sequence ?g \<and> lastTimestamp ?g \<le> ?clk 0
      \<and> (\<forall>i. ?clk i \<le> ?clk (Suc i)) \<and> (\<forall>i. \<exists>j. ?clk i < ?clk j)"
    using adv mono by (simp add: valid_sequence_def)
  note A = sequence_exhaustion [OF vg eg, of 1733011201000 ?clk 0, THEN conjunct1,
      rule_format, OF a]
  note B = sequence_exhaustion [OF vh eh, of _ ?clk 4096 903, THEN conjunct2, THEN conjunct1,
      rule_format, OF b]
  note C = sequence_exhaustion [OF vh eh, of _ ?frozen 0, THEN conjunct2, THEN conjunct2,
      THEN conjunct1, rule_format, OF c]
  note D = sequence_exhaustion [OF vg eg, of _ ?clk 0, THEN conjunct2, THEN conjunct2,
      THEN conjunct2, rule_format, OF d]
  from A have 1: "calls ?clk 4096 ?g 0
     = Some (map (\<lambda>j. Inr (BigInt_toString (packId 1000 1 1 (int j)))) [0..<4096], ?h, 4096)"
    by simp
  from B have 2: "getId ?clk ?h 4096
     = Some (Inr (BigInt_toString (packId 1001 1 1 0)), ?h', 5001)"
    by simp
  have step: "calls ?clk 1 ?h 4096
     = Some ([Inr (BigInt_toString (packId 1001 1 1 0))], ?h', 5001)"
    by (simp add: 2)
  have "\<forall>i. 5001 \<le> i \<longrightarrow> ?clk i < ?clk (Suc i)"
    by auto
  moreover have "lastTimestamp ?h' < ?clk 5001"
    by simp
  ultimately obtain rs3 this3 where
    3: "calls ?clk 903 ?h' 5001 = Some (rs3, this3, 5001 + 903)"
    using calls_advancing [of 5001 ?clk ?h' 903] by blast
  have "calls ?clk (4096 + (1 + 903)) ?g 0
      = Some (map (\<lambda>j. Inr (BigInt_toString (packId 1000 1 1 (int j)))) [0..<4096]
              @ [Inr (BigInt_toString (packId 1001 1 1 0))] @ rs3, this3, 5001 + 903)"
    by (simp only: calls_append [of ?clk 4096] calls_append [of ?clk 1] 1 step 3
        option.case prod.case)
  then have run: "\<exists>rs. calls ?clk 5000 ?g 0 = Some (rs, this3, 5904)"
    by simp
  from D obtain rs this' pos' where
    r: "calls ?clk 5000 ?g 0 = Some (rs, this', pos')"
    and concl: "(\<forall>i. 0 \<le> i \<and> i < pos' \<longrightarrow> \<bar>?clk i - 1733011200000\<bar> \<le> 2 ^ 53) \<longrightarrow>
       (\<exists>ns. rs = map (\<lambda>v. Inr (BigInt_toString v)) ns
          \<and> length ns = 5000 \<and> sorted_wrt (<) ns
          \<and> distinct (map BigInt_toString ns)
          \<and> drop_bit 22 (hd ns) < drop_bit 22 (last ns))"
    by blast
  from run r have pos': "pos' = 5904"
    by auto
  have "\<forall>i. 0 \<le> i \<and> i < pos' \<longrightarrow> \<bar>?clk i - 1733011200000\<bar> \<le> 2 ^ 53"
    unfolding pos' by auto
  with concl obtain ns where "rs = map (\<lambda>v. Inr (BigInt_toString v)) ns"
    "length ns = 5000" "sorted_wrt (<) ns" "distinct (map BigInt_toString ns)"
    "drop_bit 22 (hd ns) < drop_bit 22 (last ns)"
    by blast
  with r pos' have 4: "\<exists>ns this'.
      calls ?clk 5000 ?g 0 = Some (map (\<lambda>v. Inr (BigInt_toString v)) ns, this', 5904)
      \<and> length ns = 5000 \<and> sorted_wrt (<) ns
      \<and> distinct (map BigInt_toString ns)
      \<and> drop_bit 22 (hd ns) < drop_bit 22 (last ns)"
    by blast
  from 1 2 C 4 show ?thesis
    by (intro conjI)
qed

end
